theory Spec2Isabelle
  imports Complex_Main "HOL-Library.Word"
begin

unbundle bit_operations_syntax

section \<open>Strings\<close>

text \<open>
  A JavaScript string is modelled as a \<open>string\<close>, a list of characters: a character is
  a UTF-16 code unit below 256, so the strings modelled are the Latin-1 ones.
  \<open>is_space\<close> is the regular expression class \<open>\s\<close>, which is also the set of
  characters that \<open>String.prototype.trim\<close> removes: among the code units below 256, the
  six ASCII white space characters and the no-break space. \<open>to_lower\<close> is
  \<open>toLowerCase\<close> on one character: the ASCII capitals and the Latin-1 capitals
  \<open>0xC0\<close> to \<open>0xDE\<close> (without the multiplication sign \<open>0xD7\<close>) move up by 32.
  \<open>to_upper\<close> is \<open>toUpperCase\<close> on one character: the inverse mapping, and the sharp s
  \<open>0xDF\<close> becomes \<open>SS\<close>. The upper-case forms of \<open>0xB5\<close> and \<open>0xFF\<close> are code units
  above 255; the model leaves these two characters unchanged, and as in the source the
  result differs from every letter of \<open>AND\<close>, \<open>OR\<close> and \<open>NOT\<close>, the only strings
  that an upper-cased word is compared with.
\<close>

definition is_space :: "char \<Rightarrow> bool" where
  "is_space c \<longleftrightarrow>
     c \<in> set [CHR '' '', CHR 0x09, CHR 0x0A, CHR 0x0B, CHR 0x0C, CHR 0x0D, CHR 0xA0]"

definition upper_chars :: string where
  "upper_chars = ''ABCDEFGHIJKLMNOPQRSTUVWXYZ'' @ [
      CHR 0xC0, CHR 0xC1, CHR 0xC2, CHR 0xC3, CHR 0xC4, CHR 0xC5, CHR 0xC6, CHR 0xC7,
      CHR 0xC8, CHR 0xC9, CHR 0xCA, CHR 0xCB, CHR 0xCC, CHR 0xCD, CHR 0xCE, CHR 0xCF,
      CHR 0xD0, CHR 0xD1, CHR 0xD2, CHR 0xD3, CHR 0xD4, CHR 0xD5, CHR 0xD6, CHR 0xD8,
      CHR 0xD9, CHR 0xDA, CHR 0xDB, CHR 0xDC, CHR 0xDD, CHR 0xDE]"

definition lower_chars :: string where
  "lower_chars = ''abcdefghijklmnopqrstuvwxyz'' @ [
      CHR 0xE0, CHR 0xE1, CHR 0xE2, CHR 0xE3, CHR 0xE4, CHR 0xE5, CHR 0xE6, CHR 0xE7,
      CHR 0xE8, CHR 0xE9, CHR 0xEA, CHR 0xEB, CHR 0xEC, CHR 0xED, CHR 0xEE, CHR 0xEF,
      CHR 0xF0, CHR 0xF1, CHR 0xF2, CHR 0xF3, CHR 0xF4, CHR 0xF5, CHR 0xF6, CHR 0xF8,
      CHR 0xF9, CHR 0xFA, CHR 0xFB, CHR 0xFC, CHR 0xFD, CHR 0xFE]"

definition to_lower :: "char \<Rightarrow> char" where
  "to_lower c = (case map_of (zip upper_chars lower_chars) c of None \<Rightarrow> c | Some d \<Rightarrow> d)"

definition to_upper :: "char \<Rightarrow> string" where
  "to_upper c =
     (if c = CHR 0xDF then ''SS''
      else case map_of (zip lower_chars upper_chars) c of None \<Rightarrow> [c] | Some d \<Rightarrow> [d])"

definition toLowerCase :: "string \<Rightarrow> string" where
  "toLowerCase s = map to_lower s"

definition toUpperCase :: "string \<Rightarrow> string" where
  "toUpperCase s = concat (map to_upper s)"

definition trim :: "string \<Rightarrow> string" where
  "trim s = rev (dropWhile is_space (rev (dropWhile is_space s)))"

text \<open>\<open>normalizeTag(t)\<close> for a string \<open>t\<close>: \<open>t.trim().toLowerCase()\<close>.\<close>

definition normalizeTag :: "string \<Rightarrow> string" where
  "normalizeTag t = toLowerCase (trim t)"

section \<open>Rows of the store\<close>

text \<open>
  The fields of a normalized row that the query helpers read. Numbers that the source
  computes in floating point (\<open>sigma_idf\<close>, the IDF weights, the similarity scores) are
  modelled as real numbers.
\<close>

record row =
  row_id :: string
  row_name :: string
  row_creator :: string
  row_tags :: "string list"
  tag_count :: nat
  sigma_idf :: real

section \<open>Boolean tag expressions\<close>

datatype tok = Tag string | TNot | TAnd | TOr | LParen | RParen

text \<open>The character class \<open>[\s()!&|]\<close> that ends a bare word.\<close>

definition is_delim :: "char \<Rightarrow> bool" where
  "is_delim c \<longleftrightarrow> is_space c \<or> c \<in> set [CHR ''('', CHR '')'', CHR ''!'', CHR ''&'', CHR ''|'']"

definition is_quote :: "char \<Rightarrow> bool" where
  "is_quote c \<longleftrightarrow> c = CHR 0x22 \<or> c = CHR 0x27"

text \<open>The token pushed for the bare word \<open>word\<close>.\<close>

definition word_tok :: "string \<Rightarrow> tok" where
  "word_tok word =
     (let up = toUpperCase word in
      if up = ''AND'' then TAnd else if up = ''OR'' then TOr else if up = ''NOT'' then TNot
      else Tag (normalizeTag word))"

text \<open>
  The tokenizer loop \<open>while (i < s.length)\<close> of \<open>parseBoolExpr\<close>, on the characters from
  index \<open>i\<close> on. A quoted tag runs to the closing quote or to the end of the input, and
  the closing quote is skipped.
\<close>

function tokenize :: "string \<Rightarrow> tok list" where
  "tokenize [] = []"
| "tokenize (ch # rest) =
     (if is_space ch then tokenize rest
      else if is_quote ch then
        Tag (normalizeTag (takeWhile (\<lambda>c. c \<noteq> ch) rest))
          # tokenize (drop 1 (dropWhile (\<lambda>c. c \<noteq> ch) rest))
      else if ch = CHR ''('' then LParen # tokenize rest
      else if ch = CHR '')'' then RParen # tokenize rest
      else if ch = CHR ''!'' then TNot # tokenize rest
      else if ch = CHR ''&'' then TAnd # tokenize rest
      else if ch = CHR ''|'' then TOr # tokenize rest
      else word_tok (ch # takeWhile (\<lambda>c. \<not> is_delim c) rest)
             # tokenize (dropWhile (\<lambda>c. \<not> is_delim c) rest))"
  by pat_completeness auto
termination
proof (relation "measure length", goal_cases)
  case (3 ch rest)
  have "length (dropWhile (\<lambda>c. c \<noteq> ch) rest) \<le> length rest"
    by (rule length_dropWhile_le)
  then show ?case by simp
next
  case (9 ch rest)
  have "length (dropWhile (\<lambda>c. \<not> is_delim c) rest) \<le> length rest"
    by (rule length_dropWhile_le)
  then show ?case by simp
qed simp_all

text \<open>Shunting-yard. The operator stack \<open>ops\<close> has its top at the head of the list.\<close>

fun is_op :: "tok \<Rightarrow> bool" where
  "is_op TNot = True"
| "is_op TAnd = True"
| "is_op TOr = True"
| "is_op _ = False"

fun prec :: "tok \<Rightarrow> nat" where
  "prec TNot = 3"
| "prec TAnd = 2"
| "prec TOr = 1"
| "prec _ = 0"

text \<open>
  The inner loop for an operator \<open>t\<close>: pop operators of precedence at least \<open>prec t\<close> to
  the output.
\<close>

fun pop_ops :: "tok \<Rightarrow> tok list \<Rightarrow> tok list \<Rightarrow> tok list \<times> tok list" where
  "pop_ops t out [] = (out, [])"
| "pop_ops t out (tp # ops) =
     (if is_op tp \<and> prec tp \<ge> prec t then pop_ops t (out @ [tp]) ops
      else (out, tp # ops))"

text \<open>
  The loop for \<open>)\<close>: pop to the output until \<open>(\<close> is on top, then drop the \<open>(\<close> if there
  is one.
\<close>

fun pop_paren :: "tok list \<Rightarrow> tok list \<Rightarrow> tok list \<times> tok list" where
  "pop_paren out [] = (out, [])"
| "pop_paren out (tp # ops) =
     (if tp \<noteq> LParen then pop_paren (out @ [tp]) ops else (out, ops))"

fun shunt :: "tok list \<Rightarrow> tok list \<Rightarrow> tok list \<Rightarrow> tok list" where
  "shunt [] out ops = out @ ops"
| "shunt (Tag v # ts) out ops = shunt ts (out @ [Tag v]) ops"
| "shunt (LParen # ts) out ops = shunt ts out (LParen # ops)"
| "shunt (RParen # ts) out ops = (case pop_paren out ops of (out', ops') \<Rightarrow> shunt ts out' ops')"
| "shunt (t # ts) out ops = (case pop_ops t out ops of (out', ops') \<Rightarrow> shunt ts out' (t # ops'))"

text \<open>
  The evaluation stack has its top at the head. \<open>Array.prototype.pop\<close> on an empty array
  returns \<open>undefined\<close> (\<open>None\<close>) and leaves the array empty; \<open>or_false v\<close> is \<open>v || false\<close>.
\<close>

fun js_pop :: "bool list \<Rightarrow> bool option \<times> bool list" where
  "js_pop [] = (None, [])"
| "js_pop (x # st) = (Some x, st)"

fun or_false :: "bool option \<Rightarrow> bool" where
  "or_false None = False"
| "or_false (Some b) = b"

fun eval_step :: "row \<Rightarrow> bool list \<Rightarrow> tok \<Rightarrow> bool list" where
  "eval_step r st (Tag v) = (v \<in> set (row_tags r)) # st"
| "eval_step r st TNot = (case js_pop st of (a, st1) \<Rightarrow> (\<not> or_false a) # st1)"
| "eval_step r st TAnd =
     (case js_pop st of (b, st1) \<Rightarrow> case js_pop st1 of (a, st2) \<Rightarrow>
        (or_false a \<and> or_false b) # st2)"
| "eval_step r st TOr =
     (case js_pop st of (b, st1) \<Rightarrow> case js_pop st1 of (a, st2) \<Rightarrow>
        (or_false a \<or> or_false b) # st2)"
| "eval_step r st _ = st"

text \<open>The stack after the loop over \<open>out\<close>, started on the stack \<open>st\<close>.\<close>

definition run_rpn :: "row \<Rightarrow> bool list \<Rightarrow> tok list \<Rightarrow> bool list" where
  "run_rpn r st out = foldl (eval_step r) st out"

text \<open>The \<open>eval\<close> closure over \<open>out\<close>: \<open>!!stack.pop()\<close> after the loop.\<close>

definition eval_rpn :: "tok list \<Rightarrow> row \<Rightarrow> bool" where
  "eval_rpn out r = or_false (fst (js_pop (run_rpn r [] out)))"

text \<open>
  \<open>parseBoolExpr(input).ast\<close>: \<open>None\<close> is \<open>null\<close>, returned for an input that is empty
  after trimming.
\<close>

definition parseBoolExpr :: "string \<Rightarrow> tok list option" where
  "parseBoolExpr input =
     (let s = trim input in if s = [] then None else Some (shunt (tokenize s) [] []))"

text \<open>\<open>parseBoolExpr(input).eval(store, id, r)\<close>.\<close>

definition bool_eval :: "string \<Rightarrow> row \<Rightarrow> bool" where
  "bool_eval input r = (case parseBoolExpr input of None \<Rightarrow> True | Some out \<Rightarrow> eval_rpn out r)"

section \<open>Sets and maps of the source\<close>

text \<open>
  A JavaScript \<open>Set\<close> is modelled by the list of its elements in insertion order, without
  repetition. \<open>set_add s x\<close> is \<open>s.add(x)\<close> and \<open>js_set xs\<close> is \<open>new Set(xs)\<close>.
\<close>

definition set_add :: "'a list \<Rightarrow> 'a \<Rightarrow> 'a list" where
  "set_add s x = (if x \<in> set s then s else s @ [x])"

definition js_set :: "'a list \<Rightarrow> 'a list" where
  "js_set xs = foldl set_add [] xs"

text \<open>
  A \<open>Set\<close> has a capacity: in V8, the engine of the browsers and of Node that run this
  code, it holds at most \<open>2^24\<close> elements, and \<open>add\<close> of one more throws a \<open>RangeError\<close>
  (\<open>None\<close> below). \<open>buildStore\<close> of \<open>unnamed/part_001\<close> builds the tags of a row
  through such sets inside the \<open>try\<close> of the character, so the capacity decides
  whether the character gets a row, and it is modelled there: \<open>set_add_cap\<close> is
  \<open>add\<close>, \<open>js_set_cap acc xs\<close> adds the elements of \<open>xs\<close> to the set \<open>acc\<close>. The other
  sets and maps of the source are taken to stay below their capacity.
\<close>

definition max_set_size :: nat where
  "max_set_size = 16777216"

definition set_add_cap :: "'a list \<Rightarrow> 'a \<Rightarrow> 'a list option" where
  "set_add_cap s x =
     (if x \<in> set s then Some s
      else if length s < max_set_size then Some (s @ [x])
      else None)"

fun js_set_cap :: "'a list \<Rightarrow> 'a list \<Rightarrow> 'a list option" where
  "js_set_cap acc [] = Some acc"
| "js_set_cap acc (x # xs) =
     (case set_add_cap acc x of None \<Rightarrow> None | Some acc' \<Rightarrow> js_set_cap acc' xs)"

section \<open>The store\<close>

text \<open>
  The fields of the store that the query helpers read: \<open>rows\<close>, the object \<open>idf\<close> (tag to
  weight), and the maps \<open>tokenMap\<close> and \<open>tagToIds\<close> (key to a \<open>Set\<close> of ids), and the
  list \<open>errors\<close>.
\<close>

record store =
  s_rows :: "row list"
  s_idf :: "string \<rightharpoonup> real"
  s_tagToIds :: "string \<rightharpoonup> string list"
  s_tokenMap :: "string \<rightharpoonup> string list"
  s_errors :: "string list"

section \<open>IDF\<close>

text \<open>
  \<open>computeIdf(tagToDf, totalDocs)\<close>: every key \<open>tag\<close> of \<open>tagToDf\<close>, with count \<open>df\<close>, gets
  \<open>Math.log((N + 1) / (df + 1)) + 1\<close>. \<open>idf_weight N df\<close> is that number.
\<close>

definition idf_weight :: "nat \<Rightarrow> nat \<Rightarrow> real" where
  "idf_weight N df = ln ((real N + 1) / (real df + 1)) + 1"

definition computeIdf :: "(string \<rightharpoonup> nat) \<Rightarrow> nat \<Rightarrow> (string \<rightharpoonup> real)" where
  "computeIdf tagToDf totalDocs =
     (\<lambda>tag. case tagToDf tag of None \<Rightarrow> None | Some df \<Rightarrow> Some (idf_weight totalDocs df))"

section \<open>Tag similarity\<close>

text \<open>
  \<open>cosineSimSparse(ma, mb)\<close>. A \<open>Map\<close> is the list of its entries in insertion order;
  \<open>None\<close> is a missing argument (\<open>undefined\<close>). In \<open>if (vb)\<close> a value counts when it is
  present and not zero. The keys of a \<open>Map\<close> are distinct, so \<open>map_of\<close> is its \<open>get\<close>.
\<close>

definition sum_squares :: "(string \<times> real) list \<Rightarrow> real" where
  "sum_squares m = sum_list (map (\<lambda>(k, v). v * v) m)"

definition dot_product :: "(string \<times> real) list \<Rightarrow> (string \<times> real) list \<Rightarrow> real" where
  "dot_product small big =
     sum_list (map (\<lambda>(k, va). case map_of big k of None \<Rightarrow> 0
                                | Some vb \<Rightarrow> if vb \<noteq> 0 then va * vb else 0) small)"

definition cosineSimSparse ::
  "(string \<times> real) list option \<Rightarrow> (string \<times> real) list option \<Rightarrow> real" where
  "cosineSimSparse ma mb =
     (case ma of None \<Rightarrow> 0 | Some xa \<Rightarrow>
      case mb of None \<Rightarrow> 0 | Some xb \<Rightarrow>
        (let na = sum_squares xa;
             nb = sum_squares xb;
             (small, big) = (if length xa < length xb then (xa, xb) else (xb, xa));
             dot = dot_product small big
         in if dot = 0 \<or> na = 0 \<or> nb = 0 then 0 else dot / sqrt (na * nb)))"

text \<open>The options of \<open>tagSimilarity\<close>, and their defaults.\<close>

record tag_opts =
  mode :: string
  weightTags :: bool
  idfMul :: real

definition default_tag_opts :: tag_opts where
  "default_tag_opts = \<lparr>mode = ''jaccard'', weightTags = True, idfMul = 1\<rparr>"

text \<open>\<open>idf[t] || d\<close>, as in \<open>store.idf[t] || 1\<close>: the default \<open>d\<close> replaces a missing weight and the weight 0.\<close>

definition num_or :: "(string \<rightharpoonup> real) \<Rightarrow> real \<Rightarrow> string \<Rightarrow> real" where
  "num_or m d t = (case m t of None \<Rightarrow> d | Some v \<Rightarrow> if v = 0 then d else v)"

definition idf_or :: "store \<Rightarrow> real \<Rightarrow> string \<Rightarrow> real" where
  "idf_or s d t = num_or (s_idf s) d t"

text \<open>\<open>for (const t of A) if (B.has(t)) inter++\<close>.\<close>

definition inter_count :: "string list \<Rightarrow> string list \<Rightarrow> nat" where
  "inter_count A B = length (filter (\<lambda>t. t \<in> set B) A)"

text \<open>\<open>A.has(t) ? 1 : 0\<close>.\<close>

definition has01 :: "string list \<Rightarrow> string \<Rightarrow> real" where
  "has01 A t = (if t \<in> set A then 1 else 0)"

text \<open>The weight maps \<open>wa\<close> and \<open>wb\<close> of the default branch.\<close>

definition tag_weight :: "store \<Rightarrow> tag_opts \<Rightarrow> string \<Rightarrow> real" where
  "tag_weight s opts t = (if weightTags opts then idf_or s 1 t else 1)"

definition weight_map :: "store \<Rightarrow> tag_opts \<Rightarrow> string list \<Rightarrow> (string \<times> real) list" where
  "weight_map s opts A = map (\<lambda>t. (t, tag_weight s opts t)) A"


definition tagSimilarity :: "store \<Rightarrow> row \<Rightarrow> row \<Rightarrow> tag_opts \<Rightarrow> real" where
  "tagSimilarity s a b opts =
     (let A = js_set (row_tags a);
          B = js_set (row_tags b);
          m = mode opts
      in
      if m = ''none'' then 0
      else if m = ''overlap'' then
        sum_list (map (\<lambda>t. if weightTags opts then 1 + idf_or s 0 t * (idfMul opts - 1) else 1)
                      (filter (\<lambda>t. t \<in> set B) A))
      else if m = ''jaccard'' then
        (let inter = inter_count A B; uni = length (js_set (A @ B))
         in if uni \<noteq> 0 then real inter / real uni else 0)
      else if m = ''dice'' then
        (let inter = inter_count A B; total = length A + length B
         in if total \<noteq> 0 then (2 * real inter) / real total else 0)
      else if m = ''tanimoto'' then
        (let inter = inter_count A B; uni = length (js_set (A @ B))
         in if uni \<noteq> 0 then real inter / real uni else 0)
      else if m = ''ochiai'' then
        (let inter = inter_count A B; denom = sqrt (real (length A * length B))
         in if denom \<noteq> 0 then real inter / denom else 0)
      else if m = ''simpson'' then
        (let inter = inter_count A B; minSize = min (length A) (length B)
         in if minSize \<noteq> 0 then real inter / real minSize else 0)
      else if m = ''braun-blanquet'' then
        (let inter = inter_count A B; maxSize = max (length A) (length B)
         in if maxSize \<noteq> 0 then real inter / real maxSize else 0)
      else if m = ''hamming'' then
        (let union = js_set (A @ B);
             diff = length (filter (\<lambda>t. (t \<in> set A) \<noteq> (t \<in> set B)) union)
         in if length union \<noteq> 0 then 1 - real diff / real (length union) else 1)
      else if m = ''manhattan'' then
        (let union = js_set (A @ B);
             dist = sum_list (map (\<lambda>t. \<bar>has01 A t - has01 B t\<bar>) union)
         in if length union \<noteq> 0 then 1 - dist / real (length union) else 1)
      else if m = ''euclidean'' then
        (let union = js_set (A @ B);
             dist = sum_list (map (\<lambda>t. (has01 A t - has01 B t) ^ 2) union);
             maxDist = sqrt (real (length union))
         in if maxDist \<noteq> 0 then 1 - sqrt dist / maxDist else 1)
      else cosineSimSparse (Some (weight_map s opts A)) (Some (weight_map s opts B)))"


section \<open>Token search\<close>

text \<open>
  \<open>String(q).toLowerCase().split(/[^a-z0-9]+/).filter(Boolean)\<close>: the maximal runs of
  lower-case letters and digits of the lower-cased string. \<open>runs cur cs\<close> carries the run
  read so far.
\<close>

definition is_alnum :: "char \<Rightarrow> bool" where
  "is_alnum c \<longleftrightarrow> c \<in> set ''abcdefghijklmnopqrstuvwxyz0123456789''"

fun runs :: "string \<Rightarrow> string \<Rightarrow> string list" where
  "runs cur [] = (if cur = [] then [] else [cur])"
| "runs cur (c # cs) =
     (if is_alnum c then runs (cur @ [c]) cs
      else (if cur = [] then [] else [cur]) @ runs [] cs)"

definition tokens_of :: "string \<Rightarrow> string list" where
  "tokens_of q = runs [] (toLowerCase q)"

text \<open>\<open>store.tokenMap.get(t) || new Set()\<close>.\<close>

definition postings :: "store \<Rightarrow> string \<Rightarrow> string list" where
  "postings s t = (case s_tokenMap s t of None \<Rightarrow> [] | Some ids \<Rightarrow> ids)"

text \<open>
  The loop of \<open>searchTokens\<close>; \<open>current\<close> is \<open>None\<close> while it is \<open>undefined\<close>. The loop
  stops at the first token that leaves \<open>current\<close> empty.
\<close>

fun search_loop :: "store \<Rightarrow> string list option \<Rightarrow> string list \<Rightarrow> string list option" where
  "search_loop s current [] = current"
| "search_loop s current (t # ts) =
     (let p = postings s t;
          cur = (case current of None \<Rightarrow> p | Some c \<Rightarrow> filter (\<lambda>x. x \<in> set p) c)
      in if cur = [] then Some cur else search_loop s (Some cur) ts)"

definition searchTokens :: "store \<Rightarrow> string \<Rightarrow> string list" where
  "searchTokens s q =
     (let toks = tokens_of q
      in if toks = [] then js_set (map row_id (s_rows s))
         else (case search_loop s None toks of None \<Rightarrow> [] | Some c \<Rightarrow> c))"

section \<open>Filter\<close>

text \<open>The argument of \<open>filter\<close>, and the defaults of its destructuring pattern.\<close>

record filter_opts =
  expr :: string
  tagCountMin :: real
  tagCountMax :: real
  rarityMin :: real
  rarityMax :: real

definition default_filter_opts :: "string \<Rightarrow> filter_opts" where
  "default_filter_opts e =
     \<lparr>expr = e, tagCountMin = 0, tagCountMax = 1000000000,
      rarityMin = - 1000000000, rarityMax = 1000000000\<rparr>"

text \<open>A row is pushed to \<open>out\<close> when none of the three \<open>continue\<close> tests holds.\<close>

definition keeps :: "filter_opts \<Rightarrow> row \<Rightarrow> bool" where
  "keeps opts r \<longleftrightarrow>
     bool_eval (expr opts) r
     \<and> \<not> (real (tag_count r) < tagCountMin opts \<or> real (tag_count r) > tagCountMax opts)
     \<and> \<not> (sigma_idf r < rarityMin opts \<or> sigma_idf r > rarityMax opts)"

definition filter_rows :: "store \<Rightarrow> filter_opts \<Rightarrow> row list" where
  "filter_rows s opts = filter (keeps opts) (s_rows s)"

section \<open>Building the store\<close>

text \<open>
  Values found in the raw payload where the source expects a string: a string, \<open>null\<close> or
  \<open>undefined\<close> (\<open>JNull\<close>), or any other value, given by its conversion \<open>String(v)\<close>.
\<close>

datatype jsval = JStr string | JNull | JOther string

text \<open>
  A raw character. \<open>c_id\<close> is \<open>String(c.id)\<close>, or \<open>None\<close> when \<open>c.id\<close> is \<open>null\<close> or
  \<open>undefined\<close>; a string field that is missing or falsy is the empty string; \<open>c_tags\<close>
  is \<open>None\<close> when \<open>c.tags\<close> is not an array; \<open>c_data_avatar\<close> is \<open>c.data.avatar\<close> and
  \<open>c_creator\<close> is \<open>c.data.creator\<close>; \<open>c_json_na\<close> is the text
  \<open>JSON.stringify({n: c.name, a: c.avatar})\<close>. The free-text fields, the dates and the
  sizes of a character are copied to its row and read by no function modelled here, so
  they are left out.
\<close>

record raw_char =
  c_id :: "string option"
  c_name :: string
  c_avatar :: string
  c_data_avatar :: string
  c_image :: string
  c_json_na :: string
  c_tags :: "jsval list option"
  c_creator :: string

text \<open>
  The payload. \<open>p_characters\<close> is \<open>None\<close> when \<open>payload.characters\<close> is not an array, and
  an entry is \<open>None\<close> when it is \<open>null\<close> or \<open>undefined\<close>; \<open>p_tags_is_array\<close> is
  \<open>Array.isArray(payload.tags)\<close>; \<open>p_tag_map\<close> is \<open>None\<close> when \<open>payload.tag_map\<close> is not
  an object, and otherwise maps a key to the array stored under it.
\<close>

record payload =
  p_characters :: "raw_char option list option"
  p_tags_is_array :: bool
  p_tag_map :: "(string \<rightharpoonup> jsval list) option"

text \<open>\<open>errors.join("; ")\<close>.\<close>

fun join_errors :: "string list \<Rightarrow> string" where
  "join_errors [] = []"
| "join_errors [e] = e"
| "join_errors (e # es) = e @ ''; '' @ join_errors es"

text \<open>
  \<open>validatePayload\<close>: \<open>Inl\<close> is the message of the error thrown. After the three
  checks the source reads \<open>c.name\<close> and \<open>c.tags\<close> of the first three characters to log
  warnings; for an entry that is \<open>null\<close> or \<open>undefined\<close> this read throws a
  \<open>TypeError\<close>, outside any \<open>try\<close>, so no store is built.
\<close>

definition validatePayload ::
  "payload \<Rightarrow> string + (raw_char option list \<times> (string \<rightharpoonup> jsval list))" where
  "validatePayload p =
     (let errors =
            (if p_characters p = None then [''`characters` must be an array''] else [])
          @ (if \<not> p_tags_is_array p then [''`tags` must be an array''] else [])
          @ (if p_tag_map p = None then [''`tag_map` must be an object''] else [])
      in case (p_characters p, p_tag_map p) of
           (Some chars, Some tm) \<Rightarrow>
             if errors \<noteq> [] then Inl (''Invalid payload: '' @ join_errors errors)
             else if None \<in> set (take 3 chars) then Inl ''TypeError''
             else Inr (chars, tm)
         | _ \<Rightarrow> Inl (''Invalid payload: '' @ join_errors errors))"

text \<open>
  \<open>hashString\<close>: \<open>h = ((h << 5) + h) ^ s.charCodeAt(i)\<close> in 32-bit arithmetic, then
  \<open>(h >>> 0).toString(36)\<close>.
\<close>

definition digits36 :: string where
  "digits36 = ''0123456789abcdefghijklmnopqrstuvwxyz''"

fun to_base36 :: "nat \<Rightarrow> string" where
  "to_base36 n =
     (if n < 36 then [digits36 ! n] else to_base36 (n div 36) @ [digits36 ! (n mod 36)])"

definition hashString :: "string \<Rightarrow> string" where
  "hashString s =
     to_base36 (unat (foldl (\<lambda>h c. (push_bit 5 h + h) XOR of_char c) (5381 :: 32 word) s))"

definition deriveId :: "raw_char \<Rightarrow> string" where
  "deriveId c =
     (case c_id c of
        Some i \<Rightarrow> i
      | None \<Rightarrow>
          (let b = trim (if c_avatar c \<noteq> [] then c_avatar c else c_name c);
               basis = (if b \<noteq> [] then b else c_json_na c)
           in ''x_'' @ hashString basis))"

text \<open>
  \<open>normalizeTagsLower(arr)\<close>: \<open>null\<close> entries are skipped, the others are converted to a
  string, trimmed and lower-cased, and added to a \<open>Set\<close> when not empty. \<open>lower_loop\<close>
  is its loop, with the set \<open>out\<close>; the result is \<open>None\<close> when the set overflows.
\<close>

fun string_of :: "jsval \<Rightarrow> string option" where
  "string_of (JStr s) = Some s"
| "string_of JNull = None"
| "string_of (JOther s) = Some s"

fun lower_loop :: "string list \<Rightarrow> jsval list \<Rightarrow> string list option" where
  "lower_loop out [] = Some out"
| "lower_loop out (v # vs) =
     (case string_of v of
        None \<Rightarrow> lower_loop out vs
      | Some s \<Rightarrow>
          (let t = toLowerCase (trim s) in
           if t \<noteq> [] then
             (case set_add_cap out t of None \<Rightarrow> None | Some out' \<Rightarrow> lower_loop out' vs)
           else lower_loop out vs))"

definition normalizeTagsLower :: "jsval list option \<Rightarrow> string list option" where
  "normalizeTagsLower arr = (case arr of None \<Rightarrow> Some [] | Some xs \<Rightarrow> lower_loop [] xs)"

text \<open>
  The \<open>tags\<close> of a row in \<open>unnamed/part_001\<close>: the union of the character's own tags and
  of the tags stored in \<open>tag_map\<close> under its avatar key, or \<open>None\<close> when one of the
  three sets overflows.
\<close>

definition avatarKey :: "raw_char \<Rightarrow> string" where
  "avatarKey c =
     (if c_avatar c \<noteq> [] then c_avatar c
      else if c_data_avatar c \<noteq> [] then c_data_avatar c
      else c_image c)"

definition union_tags :: "(string \<rightharpoonup> jsval list) \<Rightarrow> raw_char \<Rightarrow> string list option" where
  "union_tags tm c =
     (case normalizeTagsLower (c_tags c) of
        None \<Rightarrow> None
      | Some selfTags \<Rightarrow>
          (let fromMapRaw = (case tm (avatarKey c) of None \<Rightarrow> [] | Some arr \<Rightarrow> arr)
           in case normalizeTagsLower (Some fromMapRaw) of
                None \<Rightarrow> None
              | Some mapTags \<Rightarrow> js_set_cap [] (selfTags @ mapTags)))"

text \<open>
  The \<open>tags\<close> of a row in \<open>cards-backend.js\<close>:
  \<open>Array.isArray(c.tags) ? c.tags.map(normalizeTag).filter(Boolean) : []\<close>, where
  \<open>normalizeTag\<close> of a value that is not a string is the empty string. No set is
  involved, so the result is never \<open>None\<close>.
\<close>

fun normalizeTag_val :: "jsval \<Rightarrow> string" where
  "normalizeTag_val (JStr s) = normalizeTag s"
| "normalizeTag_val _ = []"

definition tagList :: "(string \<rightharpoonup> jsval list) \<Rightarrow> raw_char \<Rightarrow> string list option" where
  "tagList tm c =
     Some (case c_tags c of None \<Rightarrow> []
           | Some xs \<Rightarrow> filter (\<lambda>t. t \<noteq> []) (map normalizeTag_val xs))"

text \<open>
  The normalization loop. Its state is \<open>rows\<close>, the keys of \<open>byId\<close> and \<open>errors\<close>. A
  \<open>null\<close> entry makes \<open>deriveId\<close> throw, and the \<open>catch\<close> records the message of the
  \<open>TypeError\<close>, whose wording is the engine's; so does the \<open>RangeError\<close> of a set
  that overflows while the tags are built, after the test for a known id. The fields
  \<open>tag_count\<close> and \<open>sigma_idf\<close> of a row are assigned by a later loop; until then they
  are 0 here. \<open>tags_of\<close> is the tag list of the file modelled.
\<close>

record norm_state =
  n_rows :: "row list"
  n_byId :: "string list"
  n_errors :: "string list"

definition norm_step ::
  "(raw_char \<Rightarrow> string list option) \<Rightarrow> norm_state \<Rightarrow> raw_char option \<Rightarrow> norm_state" where
  "norm_step tags_of st entry =
     (case entry of
        None \<Rightarrow> st\<lparr>n_errors := n_errors st @ [''TypeError'']\<rparr>
      | Some c \<Rightarrow>
          (let i = deriveId c in
           if i \<in> set (n_byId st) then st
           else case tags_of c of
                  None \<Rightarrow> st\<lparr>n_errors := n_errors st @ [''RangeError'']\<rparr>
                | Some ts \<Rightarrow>
                    st\<lparr>n_rows := n_rows st @
                         [\<lparr>row_id = i, row_name = c_name c, row_creator = c_creator c,
                           row_tags = ts, tag_count = 0, sigma_idf = 0\<rparr>],
                       n_byId := n_byId st @ [i]\<rparr>))"

text \<open>
  The loop that fills \<open>tagToIds\<close> and \<open>tagToDf\<close>: a tag is counted once for a row, by the
  set \<open>seen\<close>.
\<close>

record df_state =
  d_seen :: "string list"
  d_tagToIds :: "string \<rightharpoonup> string list"
  d_tagToDf :: "string \<rightharpoonup> nat"

definition df_tag :: "string \<Rightarrow> df_state \<Rightarrow> string \<Rightarrow> df_state" where
  "df_tag rid st t =
     (if t \<in> set (d_seen st) then st
      else \<lparr>d_seen = set_add (d_seen st) t,
            d_tagToIds = (d_tagToIds st)(t \<mapsto>
               set_add (case d_tagToIds st t of None \<Rightarrow> [] | Some ids \<Rightarrow> ids) rid),
            d_tagToDf = (d_tagToDf st)(t \<mapsto>
               (case d_tagToDf st t of None \<Rightarrow> 0 | Some n \<Rightarrow> n) + 1)\<rparr>)"

definition df_row :: "df_state \<Rightarrow> row \<Rightarrow> df_state" where
  "df_row st r = foldl (df_tag (row_id r)) (st\<lparr>d_seen := []\<rparr>) (row_tags r)"

text \<open>The loop that assigns \<open>tag_count\<close> and \<open>sigma_idf\<close>.\<close>

definition set_rarity :: "(string \<rightharpoonup> real) \<Rightarrow> row \<Rightarrow> row" where
  "set_rarity idf r =
     r\<lparr>tag_count := length (row_tags r),
       sigma_idf := foldl (\<lambda>sum t. sum + num_or idf 0 t) 0 (row_tags r)\<rparr>"

text \<open>The token index: \<open>addTok\<close> for every token of the name and of the creator.\<close>

definition addTok :: "string \<Rightarrow> (string \<rightharpoonup> string list) \<Rightarrow> string \<Rightarrow> (string \<rightharpoonup> string list)" where
  "addTok rid tokenMap tok0 =
     (let tok = trim tok0 in
      if tok = [] then tokenMap
      else tokenMap(tok \<mapsto> set_add (case tokenMap tok of None \<Rightarrow> [] | Some ids \<Rightarrow> ids) rid))"

definition tok_row :: "(string \<rightharpoonup> string list) \<Rightarrow> row \<Rightarrow> (string \<rightharpoonup> string list)" where
  "tok_row tokenMap r =
     foldl (addTok (row_id r)) tokenMap
       (js_set (tokens_of (row_name r) @ tokens_of (row_creator r)))"

definition norm_loop ::
  "(raw_char \<Rightarrow> string list option) \<Rightarrow> raw_char option list \<Rightarrow> norm_state" where
  "norm_loop tags_of chars =
     foldl (norm_step tags_of) \<lparr>n_rows = [], n_byId = [], n_errors = []\<rparr> chars"

definition df_loop :: "row list \<Rightarrow> df_state" where
  "df_loop rs =
     foldl df_row \<lparr>d_seen = [], d_tagToIds = Map.empty, d_tagToDf = Map.empty\<rparr> rs"

text \<open>
  \<open>buildStore\<close>, for the tag list \<open>tags_of\<close> of either file. The tag universe and the
  normalized \<open>tag_map\<close> of the store are read by no function modelled here.
\<close>

definition build_with ::
  "((string \<rightharpoonup> jsval list) \<Rightarrow> raw_char \<Rightarrow> string list option) \<Rightarrow> payload \<Rightarrow> string + store"
  where
  "build_with tags_of p =
     (case validatePayload p of
        Inl e \<Rightarrow> Inl e
      | Inr (chars, tm) \<Rightarrow>
          (let n = norm_loop (tags_of tm) chars;
               d = df_loop (n_rows n);
               idf = computeIdf (d_tagToDf d) (length (n_rows n));
               rows = map (set_rarity idf) (n_rows n);
               tokenMap = foldl tok_row Map.empty rows
           in Inr \<lparr>s_rows = rows, s_idf = idf, s_tagToIds = d_tagToIds d,
                   s_tokenMap = tokenMap, s_errors = n_errors n\<rparr>))"

text \<open>\<open>buildStore\<close> of \<open>unnamed/part_001\<close>.\<close>

definition buildStore :: "payload \<Rightarrow> string + store" where
  "buildStore p = build_with union_tags p"

text \<open>\<open>buildStore\<close> of \<open>cards-backend.js\<close>.\<close>

definition buildStore_cards_backend :: "payload \<Rightarrow> string + store" where
  "buildStore_cards_backend p = build_with tagList p"

section \<open>Document frequency\<close>

text \<open>
  Following the spec, the document frequency of a tag: the number of rows whose tag list
  contains it.
\<close>

definition df_count :: "row list \<Rightarrow> string \<Rightarrow> nat" where
  "df_count rs t = length (filter (\<lambda>r. t \<in> set (row_tags r)) rs)"

section \<open>An example corpus\<close>

text \<open>
  The corpus of the spec's end-to-end scenario: three documents with the tags
  \<open>a b\<close>, \<open>b c\<close> and \<open>a b c\<close>, as rows and as a store.
\<close>

definition doc1 :: row where
  "doc1 = \<lparr>row_id = ''1'', row_name = ''Doc1'', row_creator = ''ann'',
           row_tags = [''a'', ''b''], tag_count = 2,
           sigma_idf = idf_weight 3 2 + idf_weight 3 3\<rparr>"

definition doc2 :: row where
  "doc2 = \<lparr>row_id = ''2'', row_name = ''Doc2'', row_creator = ''bob'',
           row_tags = [''b'', ''c''], tag_count = 2,
           sigma_idf = idf_weight 3 3 + idf_weight 3 2\<rparr>"

definition doc3 :: row where
  "doc3 = \<lparr>row_id = ''3'', row_name = ''Doc3'', row_creator = ''ann'',
           row_tags = [''a'', ''b'', ''c''], tag_count = 3,
           sigma_idf = idf_weight 3 2 + idf_weight 3 3 + idf_weight 3 2\<rparr>"

definition demo_store :: store where
  "demo_store =
     \<lparr>s_rows = [doc1, doc2, doc3],
      s_idf = [''a'' \<mapsto> idf_weight 3 2, ''b'' \<mapsto> idf_weight 3 3, ''c'' \<mapsto> idf_weight 3 2],
      s_tagToIds = [''a'' \<mapsto> [''1'', ''3''], ''b'' \<mapsto> [''1'', ''2'', ''3''],
                    ''c'' \<mapsto> [''2'', ''3'']],
      s_tokenMap = [''doc1'' \<mapsto> [''1''], ''ann'' \<mapsto> [''1'', ''3''], ''doc2'' \<mapsto> [''2''],
                    ''bob'' \<mapsto> [''2''], ''doc3'' \<mapsto> [''3'']],
      s_errors = []\<rparr>"

subsection \<open>Example payloads\<close>

text \<open>The payload of the example corpus, with tags that need normalizing.\<close>

definition demo_payload :: payload where
  \<open>demo_payload =
     \<lparr>p_characters = Some
        [Some \<lparr>c_id = Some ''1'', c_name = ''Doc1'', c_avatar = [], c_data_avatar = [],
               c_image = [], c_json_na = ''{"n":"Doc1"}'',
               c_tags = Some [JStr '' A '', JStr ''b'', JNull, JStr ''B''],
               c_creator = ''ann''\<rparr>,
         Some \<lparr>c_id = Some ''2'', c_name = ''Doc2'', c_avatar = [], c_data_avatar = [],
               c_image = [], c_json_na = ''{"n":"Doc2"}'',
               c_tags = Some [JStr ''b'', JStr ''c''], c_creator = ''bob''\<rparr>,
         Some \<lparr>c_id = Some ''3'', c_name = ''Doc3'', c_avatar = ''x.png'', c_data_avatar = [],
               c_image = [], c_json_na = ''{"n":"Doc3","a":"x.png"}'',
               c_tags = Some [JStr ''a'', JStr ''b''], c_creator = ''ann''\<rparr>,
         Some \<lparr>c_id = Some ''1'', c_name = ''Again'', c_avatar = [], c_data_avatar = [],
               c_image = [], c_json_na = ''{"n":"Again"}'',
               c_tags = Some [JStr ''z''], c_creator = ''zed''\<rparr>],
      p_tags_is_array = True,
      p_tag_map = Some [''x.png'' \<mapsto> [JStr ''C'', JStr ''a'']]\<rparr>\<close>

text \<open>A character whose two raw tags differ in case only.\<close>

definition dup_payload :: payload where
  \<open>dup_payload =
     \<lparr>p_characters = Some
        [Some \<lparr>c_id = Some ''0'', c_name = ''Dup'', c_avatar = [], c_data_avatar = [],
               c_image = [], c_json_na = ''{"n":"Dup"}'',
               c_tags = Some [JStr ''a'', JStr ''A''], c_creator = []\<rparr>],
      p_tags_is_array = True,
      p_tag_map = Some Map.empty\<rparr>\<close>

section \<open>Properties of the boolean engine\<close>

lemmas parse_simps = bool_eval_def parseBoolExpr_def trim_def is_space_def is_quote_def
  is_delim_def word_tok_def toUpperCase_def toLowerCase_def to_upper_def to_lower_def
  upper_chars_def lower_chars_def normalizeTag_def eval_rpn_def run_rpn_def Let_def

lemma trim_spaces: "list_all is_space s \<Longrightarrow> trim s = []"
  by (induction s) (simp_all add: trim_def)

lemma eval_and: "bool_eval ''a AND b'' r = (''a'' \<in> set (row_tags r) \<and> ''b'' \<in> set (row_tags r))"
  by (simp add: parse_simps)

lemma eval_or: "bool_eval ''a OR b'' r = (''a'' \<in> set (row_tags r) \<or> ''b'' \<in> set (row_tags r))"
  by (simp add: parse_simps)

lemma eval_not: "bool_eval ''NOT a'' r = (''a'' \<notin> set (row_tags r))"
  by (simp add: parse_simps)

lemma eval_quoted:
  \<open>bool_eval ''"multi word" AND c'' r
     = (''multi word'' \<in> set (row_tags r) \<and> ''c'' \<in> set (row_tags r))\<close>
  by (simp add: parse_simps)

lemma parse_quoted:
  \<open>parseBoolExpr ''"multi word" AND c'' = Some [Tag ''multi word'', Tag ''c'', TAnd]\<close>
  by (simp add: parse_simps)

lemma eval_blank: "list_all is_space s \<longrightarrow> parseBoolExpr s = None \<and> bool_eval s r"
  by (simp add: bool_eval_def parseBoolExpr_def trim_spaces)

lemma eval_empty: "bool_eval [] r"
  by (simp add: bool_eval_def parseBoolExpr_def trim_def)

lemma eval_tokens:
  "eval_rpn (shunt [Tag x, TAnd, Tag y] [] []) r = (x \<in> set (row_tags r) \<and> y \<in> set (row_tags r))
   \<and> eval_rpn (shunt [Tag x, TOr, Tag y] [] []) r = (x \<in> set (row_tags r) \<or> y \<in> set (row_tags r))
   \<and> eval_rpn (shunt [TNot, Tag x] [] []) r = (x \<notin> set (row_tags r))"
  by (simp add: eval_rpn_def run_rpn_def)

text \<open>
  C1. For every row \<open>r\<close>: \<open>parse("a AND b").eval\<close> is true iff both tags are in
  \<open>r.tags\<close>; \<open>parse("a OR b").eval\<close> iff at least one is; \<open>parse("NOT a").eval\<close> iff
  \<open>a\<close> is absent; an empty or whitespace-only expression evaluates to true; and in
  \<open>"multi word" AND c\<close> the quoted phrase is one tag literal. The same holds for the
  token sequences of any two tag literals \<open>x\<close> and \<open>y\<close>.
\<close>

theorem C1_boolean_semantics:
  \<open>bool_eval ''a AND b'' r = (''a'' \<in> set (row_tags r) \<and> ''b'' \<in> set (row_tags r))
   \<and> bool_eval ''a OR b'' r = (''a'' \<in> set (row_tags r) \<or> ''b'' \<in> set (row_tags r))
   \<and> bool_eval ''NOT a'' r = (''a'' \<notin> set (row_tags r))
   \<and> bool_eval [] r
   \<and> (list_all is_space s \<longrightarrow> parseBoolExpr s = None \<and> bool_eval s r)
   \<and> parseBoolExpr ''"multi word" AND c'' = Some [Tag ''multi word'', Tag ''c'', TAnd]
   \<and> bool_eval ''"multi word" AND c'' r
       = (''multi word'' \<in> set (row_tags r) \<and> ''c'' \<in> set (row_tags r))
   \<and> eval_rpn (shunt [Tag x, TAnd, Tag y] [] []) r
       = (x \<in> set (row_tags r) \<and> y \<in> set (row_tags r))
   \<and> eval_rpn (shunt [Tag x, TOr, Tag y] [] []) r
       = (x \<in> set (row_tags r) \<or> y \<in> set (row_tags r))
   \<and> eval_rpn (shunt [TNot, Tag x] [] []) r = (x \<notin> set (row_tags r))\<close>
  using eval_and [of r] eval_or [of r] eval_not [of r] eval_quoted [of r] parse_quoted
    eval_blank [of s r] eval_empty [of r] eval_tokens [of x y r]
  by blast

theorem C1_boolean_semantics_witness:
  "list_all is_space [CHR '' '', CHR 0x09, CHR '' '']
   \<and> parseBoolExpr [CHR '' '', CHR 0x09, CHR '' ''] = None
   \<and> bool_eval [CHR '' '', CHR 0x09, CHR '' ''] doc1"
proof -
  have h: "list_all is_space [CHR '' '', CHR 0x09, CHR '' '']"
    by (simp add: is_space_def)
  show ?thesis
    using h C1_boolean_semantics [of doc1 "[CHR '' '', CHR 0x09, CHR '' '']"]
    by blast
qed

text \<open>
  A prefix operator is popped like an infix one: the second \<open>NOT\<close> of \<open>NOT NOT a\<close>
  sends the first to the output before any operand, where it negates the \<open>false\<close> of
  the empty stack, and the expression evaluates as \<open>NOT a\<close>.
\<close>

lemma not_not:
  "parseBoolExpr ''NOT NOT a'' = Some [TNot, Tag ''a'', TNot]"
  "bool_eval ''NOT NOT a'' r = (''a'' \<notin> set (row_tags r))"
  by (simp_all add: parse_simps)

text \<open>
  C2. The conversion to postfix gives NOT the precedence 3, AND 2 and OR 1, and pops
  an operator of equal precedence before it pushes the next one (left-associative).
  For every row, \<open>a AND b OR c\<close> evaluates as \<open>(a AND b) OR c\<close> and \<open>NOT a AND b\<close> as
  \<open>(NOT a) AND b\<close>, with the same postfix form; AND binds tighter than OR on either
  side (\<open>a OR b AND c\<close>), NOT binds tighter than AND and OR on either side
  (\<open>a AND NOT b\<close>, \<open>NOT a OR b\<close>, \<open>a OR NOT b\<close>); \<open>a AND b AND c\<close> and \<open>a OR b OR c\<close>
  group to the left, and so does the prefix operator: the second NOT of \<open>NOT NOT a\<close>
  sends the first to the output. The postfix forms hold for any tags \<open>x\<close>, \<open>y\<close>, \<open>z\<close>.
\<close>

theorem C2_precedence:
  "bool_eval ''a AND b OR c'' r = bool_eval ''(a AND b) OR c'' r
   \<and> bool_eval ''a AND b OR c'' r
       = ((''a'' \<in> set (row_tags r) \<and> ''b'' \<in> set (row_tags r)) \<or> ''c'' \<in> set (row_tags r))
   \<and> bool_eval ''NOT a AND b'' r = bool_eval ''(NOT a) AND b'' r
   \<and> bool_eval ''NOT a AND b'' r = (''a'' \<notin> set (row_tags r) \<and> ''b'' \<in> set (row_tags r))
   \<and> bool_eval ''a OR b AND c'' r
       = (''a'' \<in> set (row_tags r) \<or> (''b'' \<in> set (row_tags r) \<and> ''c'' \<in> set (row_tags r)))
   \<and> shunt [Tag x, TAnd, Tag y, TOr, Tag z] [] []
       = shunt [LParen, Tag x, TAnd, Tag y, RParen, TOr, Tag z] [] []
   \<and> shunt [TNot, Tag x, TAnd, Tag y] [] []
       = shunt [LParen, TNot, Tag x, RParen, TAnd, Tag y] [] []
   \<and> prec TNot = 3 \<and> prec TAnd = 2 \<and> prec TOr = 1
   \<and> bool_eval ''a AND NOT b'' r = (''a'' \<in> set (row_tags r) \<and> ''b'' \<notin> set (row_tags r))
   \<and> bool_eval ''NOT a OR b'' r = (''a'' \<notin> set (row_tags r) \<or> ''b'' \<in> set (row_tags r))
   \<and> bool_eval ''a OR NOT b'' r = (''a'' \<in> set (row_tags r) \<or> ''b'' \<notin> set (row_tags r))
   \<and> parseBoolExpr ''a AND b OR c'' = Some [Tag ''a'', Tag ''b'', TAnd, Tag ''c'', TOr]
   \<and> parseBoolExpr ''a OR b AND c'' = Some [Tag ''a'', Tag ''b'', Tag ''c'', TAnd, TOr]
   \<and> parseBoolExpr ''NOT a AND b'' = Some [Tag ''a'', TNot, Tag ''b'', TAnd]
   \<and> parseBoolExpr ''a AND NOT b'' = Some [Tag ''a'', Tag ''b'', TNot, TAnd]
   \<and> parseBoolExpr ''a AND b AND c'' = Some [Tag ''a'', Tag ''b'', TAnd, Tag ''c'', TAnd]
   \<and> parseBoolExpr ''a OR b OR c'' = Some [Tag ''a'', Tag ''b'', TOr, Tag ''c'', TOr]
   \<and> parseBoolExpr ''NOT NOT a'' = Some [TNot, Tag ''a'', TNot]
   \<and> shunt [Tag x, TAnd, Tag y, TOr, Tag z] [] [] = [Tag x, Tag y, TAnd, Tag z, TOr]
   \<and> shunt [Tag x, TOr, Tag y, TAnd, Tag z] [] [] = [Tag x, Tag y, Tag z, TAnd, TOr]
   \<and> shunt [TNot, Tag x, TAnd, Tag y] [] [] = [Tag x, TNot, Tag y, TAnd]
   \<and> shunt [Tag x, TAnd, TNot, Tag y] [] [] = [Tag x, Tag y, TNot, TAnd]
   \<and> shunt [TNot, Tag x, TOr, Tag y] [] [] = [Tag x, TNot, Tag y, TOr]
   \<and> shunt [Tag x, TAnd, Tag y, TAnd, Tag z] [] [] = [Tag x, Tag y, TAnd, Tag z, TAnd]
   \<and> shunt [Tag x, TOr, Tag y, TOr, Tag z] [] [] = [Tag x, Tag y, TOr, Tag z, TOr]
   \<and> eval_rpn (shunt [Tag x, TAnd, TNot, Tag y] [] []) r
       = (x \<in> set (row_tags r) \<and> y \<notin> set (row_tags r))"
proof -
  have e1: "bool_eval ''a AND b OR c'' r
       = ((''a'' \<in> set (row_tags r) \<and> ''b'' \<in> set (row_tags r)) \<or> ''c'' \<in> set (row_tags r))"
    by (simp add: parse_simps)
  have e2: "bool_eval ''(a AND b) OR c'' r
       = ((''a'' \<in> set (row_tags r) \<and> ''b'' \<in> set (row_tags r)) \<or> ''c'' \<in> set (row_tags r))"
    by (simp add: parse_simps)
  have e3: "bool_eval ''NOT a AND b'' r = (''a'' \<notin> set (row_tags r) \<and> ''b'' \<in> set (row_tags r))"
    by (simp add: parse_simps)
  have e4: "bool_eval ''(NOT a) AND b'' r = (''a'' \<notin> set (row_tags r) \<and> ''b'' \<in> set (row_tags r))"
    by (simp add: parse_simps)
  have e5: "bool_eval ''a OR b AND c'' r
       = (''a'' \<in> set (row_tags r) \<or> (''b'' \<in> set (row_tags r) \<and> ''c'' \<in> set (row_tags r)))"
    by (simp add: parse_simps)
  have e6: "bool_eval ''a AND NOT b'' r = (''a'' \<in> set (row_tags r) \<and> ''b'' \<notin> set (row_tags r))"
    by (simp add: parse_simps)
  have e7: "bool_eval ''NOT a OR b'' r = (''a'' \<notin> set (row_tags r) \<or> ''b'' \<in> set (row_tags r))"
    by (simp add: parse_simps)
  have e8: "bool_eval ''a OR NOT b'' r = (''a'' \<in> set (row_tags r) \<or> ''b'' \<notin> set (row_tags r))"
    by (simp add: parse_simps)
  have p1: "parseBoolExpr ''a AND b OR c'' = Some [Tag ''a'', Tag ''b'', TAnd, Tag ''c'', TOr]"
    by (simp add: parse_simps)
  have p2: "parseBoolExpr ''a OR b AND c'' = Some [Tag ''a'', Tag ''b'', Tag ''c'', TAnd, TOr]"
    by (simp add: parse_simps)
  have p3: "parseBoolExpr ''NOT a AND b'' = Some [Tag ''a'', TNot, Tag ''b'', TAnd]"
    by (simp add: parse_simps)
  have p4: "parseBoolExpr ''a AND NOT b'' = Some [Tag ''a'', Tag ''b'', TNot, TAnd]"
    by (simp add: parse_simps)
  have p5: "parseBoolExpr ''a AND b AND c'' = Some [Tag ''a'', Tag ''b'', TAnd, Tag ''c'', TAnd]"
    by (simp add: parse_simps)
  have p6: "parseBoolExpr ''a OR b OR c'' = Some [Tag ''a'', Tag ''b'', TOr, Tag ''c'', TOr]"
    by (simp add: parse_simps)
  have p7: "parseBoolExpr ''NOT NOT a'' = Some [TNot, Tag ''a'', TNot]"
    by (simp add: parse_simps)
  have s1: "shunt [Tag x, TAnd, Tag y, TOr, Tag z] [] [] = [Tag x, Tag y, TAnd, Tag z, TOr]"
    by simp
  have s2: "shunt [LParen, Tag x, TAnd, Tag y, RParen, TOr, Tag z] [] []
      = [Tag x, Tag y, TAnd, Tag z, TOr]"
    by simp
  have s3: "shunt [TNot, Tag x, TAnd, Tag y] [] [] = [Tag x, TNot, Tag y, TAnd]"
    by simp
  have s4: "shunt [LParen, TNot, Tag x, RParen, TAnd, Tag y] [] [] = [Tag x, TNot, Tag y, TAnd]"
    by simp
  have s5: "shunt [Tag x, TOr, Tag y, TAnd, Tag z] [] [] = [Tag x, Tag y, Tag z, TAnd, TOr]"
    by simp
  have s6: "shunt [Tag x, TAnd, TNot, Tag y] [] [] = [Tag x, Tag y, TNot, TAnd]"
    by simp
  have s7: "shunt [TNot, Tag x, TOr, Tag y] [] [] = [Tag x, TNot, Tag y, TOr]"
    by simp
  have s8: "shunt [Tag x, TAnd, Tag y, TAnd, Tag z] [] [] = [Tag x, Tag y, TAnd, Tag z, TAnd]"
    by simp
  have s9: "shunt [Tag x, TOr, Tag y, TOr, Tag z] [] [] = [Tag x, Tag y, TOr, Tag z, TOr]"
    by simp
  have v: "eval_rpn [Tag x, Tag y, TNot, TAnd] r
       = (x \<in> set (row_tags r) \<and> y \<notin> set (row_tags r))"
    by (simp add: eval_rpn_def run_rpn_def)
  have pr: "prec TNot = 3 \<and> prec TAnd = 2 \<and> prec TOr = 1"
    by simp
  show ?thesis
    by (simp only: e1 e2 e3 e4 e5 e6 e7 e8 p1 p2 p3 p4 p5 p6 p7 s1 s2 s3 s4 s5 s6 s7 s8 s9 v pr
        simp_thms)
qed

theorem C2_precedence_witness:
  "''a'' \<in> set (row_tags doc1) \<and> ''b'' \<in> set (row_tags doc1)
   \<and> bool_eval ''NOT a OR b'' doc1 = True
   \<and> bool_eval ''a OR NOT b'' doc1 = True
   \<and> bool_eval ''a AND NOT b'' doc1 = False
   \<and> bool_eval ''NOT a AND b'' doc1 = False
   \<and> ''a'' \<in> set (row_tags doc3) \<and> ''b'' \<in> set (row_tags doc3) \<and> ''c'' \<in> set (row_tags doc3)
   \<and> bool_eval ''a OR b AND c'' doc1 = True
   \<and> bool_eval ''a AND b OR c'' doc3 = True"
proof -
  have t: "''a'' \<in> set (row_tags doc1) \<and> ''b'' \<in> set (row_tags doc1)
      \<and> ''a'' \<in> set (row_tags doc3) \<and> ''b'' \<in> set (row_tags doc3)
      \<and> ''c'' \<in> set (row_tags doc3)"
    by (simp add: doc1_def doc3_def)
  show ?thesis
    using t C2_precedence [of doc1 "''a''" "''b''" "''c''"]
      C2_precedence [of doc3 "''a''" "''b''" "''c''"]
    by blast
qed

subsection \<open>Missing operands\<close>

lemma pop_False: "or_false (fst (js_pop (st @ replicate k False))) = or_false (fst (js_pop st))"
  by (cases st; cases k) simp_all

lemma js_pop_pad:
  "\<exists>k. snd (js_pop (st @ replicate n False)) = snd (js_pop st) @ replicate k False"
proof (cases st)
  case Nil
  show ?thesis
  proof (cases n)
    case 0
    with Nil show ?thesis by simp
  next
    case (Suc m)
    with Nil have "snd (js_pop (st @ replicate n False)) = snd (js_pop st) @ replicate m False"
      by simp
    then show ?thesis ..
  qed
next
  case (Cons x xs)
  then have "snd (js_pop (st @ replicate n False)) = snd (js_pop st) @ replicate n False"
    by simp
  then show ?thesis ..
qed

lemma eval_step_pad:
  "\<exists>k. eval_step r (st @ replicate n False) t = eval_step r st t @ replicate k False"
proof -
  obtain k1 where k1: "snd (js_pop (st @ replicate n False)) = snd (js_pop st) @ replicate k1 False"
    using js_pop_pad by blast
  obtain k2 where k2: "snd (js_pop (snd (js_pop st) @ replicate k1 False))
      = snd (js_pop (snd (js_pop st))) @ replicate k2 False"
    using js_pop_pad by blast
  have same: "t = Tag v \<or> t = LParen \<or> t = RParen \<Longrightarrow>
      eval_step r (st @ replicate n False) t = eval_step r st t @ replicate n False" for v
    by auto
  have one: "t = TNot \<Longrightarrow>
      eval_step r (st @ replicate n False) t = eval_step r st t @ replicate k1 False"
    using k1 pop_False [of st n] by (simp add: case_prod_unfold)
  have two: "t = TAnd \<or> t = TOr \<Longrightarrow>
      eval_step r (st @ replicate n False) t = eval_step r st t @ replicate k2 False"
    using k1 k2 pop_False [of st n] pop_False [of "snd (js_pop st)" k1]
    by (auto simp add: case_prod_unfold)
  show ?thesis
    using same one two by (cases t) blast+
qed

lemma run_rpn_pad:
  "\<exists>k. run_rpn r (st @ replicate n False) out = run_rpn r st out @ replicate k False"
proof (induction out arbitrary: st n)
  case Nil
  have "run_rpn r (st @ replicate n False) [] = run_rpn r st [] @ replicate n False"
    by (simp add: run_rpn_def)
  then show ?case ..
next
  case (Cons t out)
  obtain k where k: "eval_step r (st @ replicate n False) t = eval_step r st t @ replicate k False"
    using eval_step_pad by blast
  from Cons.IH [of "eval_step r st t" k] k show ?case
    by (simp add: run_rpn_def)
qed

lemma eval_rpn_pad:
  "or_false (fst (js_pop (run_rpn r (replicate n False) out))) = eval_rpn out r"
proof -
  obtain k where "run_rpn r ([] @ replicate n False) out = run_rpn r [] out @ replicate k False"
    using run_rpn_pad by blast
  then show ?thesis
    by (simp add: eval_rpn_def pop_False)
qed

lemma eval_dangling:
  "parseBoolExpr ''AND'' = Some [TAnd]" "\<not> bool_eval ''AND'' r"
  "parseBoolExpr ''a AND'' = Some [Tag ''a'', TAnd]" "\<not> bool_eval ''a AND'' r"
  by (simp_all add: parse_simps)

text \<open>
  C8. The stack machine is a total function from any token sequence and row to a boolean:
  every operation of the source's \<open>eval\<close> (\<open>push\<close>, \<open>pop\<close>, \<open>includes\<close> on the tag array,
  \<open>||\<close>, \<open>&&\<close>, \<open>!\<close>) returns, and the model has no error value. A pop from the empty
  stack counts as \<open>false\<close>: for every token sequence \<open>out\<close>, evaluation from the empty
  stack gives the result of evaluation from a stack of \<open>n\<close> values \<open>false\<close>, for any \<open>n\<close>.
  The inputs \<open>AND\<close> and \<open>a AND\<close> evaluate to false on every row.
\<close>

theorem C8_missing_operands_false:
  "eval_rpn out r = or_false (fst (js_pop (run_rpn r (replicate n False) out)))
   \<and> eval_step r [] TNot = [True]
   \<and> eval_step r [] TAnd = [False] \<and> eval_step r [b] TAnd = [False]
   \<and> eval_step r [] TOr = [False] \<and> eval_step r [b] TOr = [b]
   \<and> parseBoolExpr ''AND'' = Some [TAnd] \<and> \<not> bool_eval ''AND'' r
   \<and> parseBoolExpr ''a AND'' = Some [Tag ''a'', TAnd] \<and> \<not> bool_eval ''a AND'' r"
  using eval_rpn_pad [of r n out] eval_dangling by simp

section \<open>Properties of the set model\<close>

lemma set_foldl_set_add: "set (foldl set_add acc xs) = set acc \<union> set xs"
  by (induction xs arbitrary: acc) (auto simp: set_add_def)


lemma set_js_set [simp]: "set (js_set xs) = set xs"
  by (simp add: js_set_def set_foldl_set_add)



lemma js_set_empty [simp]: "js_set xs = [] \<longleftrightarrow> xs = []"
proof -
  have "js_set xs = [] \<longleftrightarrow> set (js_set xs) = {}"
    by (simp only: set_empty)
  then show ?thesis by simp
qed



section \<open>Properties of tag similarity\<close>



lemma abs_has01:
  "sum_list (map (\<lambda>t. \<bar>has01 A t - has01 B t\<bar>) U)
     = real (length (filter (\<lambda>t. (t \<in> set A) \<noteq> (t \<in> set B)) U))"
  by (induction U) (simp_all add: has01_def)















text \<open>
  C5. The modes hamming and manhattan give the same number for every pair of rows, empty
  tag lists included, and every setting of the other options.
\<close>

theorem C5_hamming_is_manhattan:
  "tagSimilarity s a b (opts\<lparr>mode := ''hamming''\<rparr>)
     = tagSimilarity s a b (opts\<lparr>mode := ''manhattan''\<rparr>)"
  by (simp add: tagSimilarity_def Let_def abs_has01)



section \<open>Properties of the IDF table\<close>

lemma idf_weight_decreasing:
  assumes "df1 < df2"
  shows "idf_weight N df2 < idf_weight N df1"
proof -
  have "(real N + 1) / (real df2 + 1) < (real N + 1) / (real df1 + 1)"
    using assms by (simp add: frac_less2)
  moreover have "0 < (real N + 1) / (real df2 + 1)"
    by simp
  ultimately have "ln ((real N + 1) / (real df2 + 1)) < ln ((real N + 1) / (real df1 + 1))"
    by (simp only: ln_less_cancel_iff)
  then show ?thesis
    by (simp add: idf_weight_def)
qed

lemma idf_weight_full: "idf_weight N N = 1"
  by (simp add: idf_weight_def)

lemma idf_weight_ge_1:
  assumes "df \<le> N"
  shows "1 \<le> idf_weight N df"
proof (cases "df = N")
  case True
  then show ?thesis by (simp add: idf_weight_full)
next
  case False
  with assms have "df < N" by simp
  then have "idf_weight N N < idf_weight N df"
    by (rule idf_weight_decreasing)
  then show ?thesis by (simp add: idf_weight_full)
qed

subsection \<open>The document-frequency loop\<close>

lemma df_tags_loop:
  "d_tagToDf (foldl (df_tag rid) st ts) t
     = (if t \<in> set ts \<and> t \<notin> set (d_seen st)
        then Some ((case d_tagToDf st t of None \<Rightarrow> 0 | Some n \<Rightarrow> n) + 1)
        else d_tagToDf st t)"
proof (induction ts arbitrary: st)
  case Nil
  show ?case by simp
next
  case (Cons x ts)
  show ?case
  proof (cases "x \<in> set (d_seen st)")
    case True
    then have "df_tag rid st x = st"
      by (simp add: df_tag_def)
    with Cons.IH [of st] True show ?thesis
      by auto
  next
    case False
    define st' where "st' = df_tag rid st x"
    have seen: "set (d_seen st') = insert x (set (d_seen st))"
      using False by (auto simp add: st'_def df_tag_def set_add_def)
    have df: "d_tagToDf st' = (d_tagToDf st)(x \<mapsto>
        (case d_tagToDf st x of None \<Rightarrow> 0 | Some n \<Rightarrow> n) + 1)"
      using False by (simp add: st'_def df_tag_def)
    show ?thesis
      using Cons.IH [of st'] False
      by (auto simp add: st'_def [symmetric] seen df)
  qed
qed

lemma df_row_step:
  "d_tagToDf (df_row st r) t
     = (if t \<in> set (row_tags r)
        then Some ((case d_tagToDf st t of None \<Rightarrow> 0 | Some n \<Rightarrow> n) + 1)
        else d_tagToDf st t)"
  by (simp add: df_row_def df_tags_loop)

lemma df_rows_loop:
  "d_tagToDf (foldl df_row st rs) t
     = (if df_count rs t = 0 then d_tagToDf st t
        else Some ((case d_tagToDf st t of None \<Rightarrow> 0 | Some n \<Rightarrow> n) + df_count rs t))"
proof (induction rs arbitrary: st)
  case Nil
  show ?case by (simp add: df_count_def)
next
  case (Cons r rs)
  have cnt: "df_count (r # rs) t = (if t \<in> set (row_tags r) then 1 else 0) + df_count rs t"
    by (simp add: df_count_def)
  show ?case
    using Cons.IH [of "df_row st r"]
    by (simp add: cnt df_row_step)
qed

lemma df_count_le: "df_count rs t \<le> length rs"
  by (simp add: df_count_def)

lemma df_count_map_set_rarity: "df_count (map (set_rarity f) rs) t = df_count rs t"
  by (simp add: df_count_def set_rarity_def filter_map comp_def)

text \<open>The parts of a built store.\<close>

lemma build_with_Inr:
  assumes "build_with tags_of p = Inr s"
  shows "\<exists>chars tm. validatePayload p = Inr (chars, tm)
     \<and> s_rows s = map (set_rarity (s_idf s)) (n_rows (norm_loop (tags_of tm) chars))
     \<and> s_idf s = computeIdf (d_tagToDf (df_loop (n_rows (norm_loop (tags_of tm) chars))))
                    (length (n_rows (norm_loop (tags_of tm) chars)))
     \<and> s_tokenMap s = foldl tok_row Map.empty (s_rows s)
     \<and> s_errors s = n_errors (norm_loop (tags_of tm) chars)"
  using assms by (auto simp add: build_with_def Let_def split: sum.splits)

lemma build_with_valid:
  assumes "validatePayload p = Inr (chars, tm)"
  shows "\<exists>s. build_with tags_of p = Inr s"
  using assms by (simp add: build_with_def Let_def)

text \<open>The IDF table of a built store, for the tag lists of either file.\<close>

lemma build_idf:
  assumes "build_with tags_of p = Inr s"
  shows "s_idf s t
     = (if df_count (s_rows s) t = 0 then None
        else Some (idf_weight (length (s_rows s)) (df_count (s_rows s) t)))"
proof -
  from build_with_Inr [OF assms] obtain chars tm where
    s: "s_rows s = map (set_rarity (s_idf s)) (n_rows (norm_loop (tags_of tm) chars))"
       "s_idf s = computeIdf (d_tagToDf (df_loop (n_rows (norm_loop (tags_of tm) chars))))
                    (length (n_rows (norm_loop (tags_of tm) chars)))"
    by blast
  define rs where "rs = n_rows (norm_loop (tags_of tm) chars)"
  have "d_tagToDf (df_loop rs) t = (if df_count rs t = 0 then None else Some (df_count rs t))"
    by (simp add: df_loop_def df_rows_loop)
  moreover have "df_count (s_rows s) t = df_count rs t" "length (s_rows s) = length rs"
    by (simp_all add: s(1) rs_def df_count_map_set_rarity)
  ultimately show ?thesis
    using s(2) by (simp add: rs_def [symmetric] computeIdf_def)
qed

text \<open>
  C3. \<open>computeIdf\<close> gives every tag of the frequency table the weight
  \<open>ln((N+1)/(df+1)) + 1\<close>; in a built store \<open>N\<close> is the number of rows and \<open>df\<close> the
  number of rows that carry the tag. For fixed \<open>N\<close> the weight is strictly decreasing in
  \<open>df\<close>, and for \<open>df = N\<close> it is 1, so positive. The weights are real numbers here.
\<close>

theorem C3_idf_formula_monotone_positive:
  "computeIdf tagToDf N tag = map_option (idf_weight N) (tagToDf tag)
   \<and> idf_weight N df = ln ((real N + 1) / (real df + 1)) + 1
   \<and> (buildStore p = Inr s \<and> df_count (s_rows s) tag \<noteq> 0 \<longrightarrow>
        s_idf s tag = Some (idf_weight (length (s_rows s)) (df_count (s_rows s) tag)))
   \<and> (df1 < df2 \<longrightarrow> idf_weight N df2 < idf_weight N df1)
   \<and> idf_weight N N = 1 \<and> 0 < idf_weight N N"
proof -
  have "computeIdf tagToDf N tag = map_option (idf_weight N) (tagToDf tag)"
    by (simp add: computeIdf_def split: option.splits)
  moreover have "idf_weight N df = ln ((real N + 1) / (real df + 1)) + 1"
    by (simp add: idf_weight_def)
  moreover have "buildStore p = Inr s \<and> df_count (s_rows s) tag \<noteq> 0 \<longrightarrow>
        s_idf s tag = Some (idf_weight (length (s_rows s)) (df_count (s_rows s) tag))"
    using build_idf [of union_tags p s tag] by (simp add: buildStore_def)
  moreover have "df1 < df2 \<longrightarrow> idf_weight N df2 < idf_weight N df1"
    using idf_weight_decreasing [of df1 df2 N] by blast
  ultimately show ?thesis
    by (simp add: idf_weight_full)
qed

subsection \<open>The example corpus\<close>

lemmas norm_simps = norm_loop_def norm_step_def deriveId_def union_tags_def avatarKey_def
  normalizeTagsLower_def set_add_cap_def max_set_size_def trim_def is_space_def
  toLowerCase_def to_lower_def upper_chars_def lower_chars_def Let_def

lemma demo_valid:
  "validatePayload demo_payload
     = Inr (the (p_characters demo_payload), the (p_tag_map demo_payload))"
  by (simp add: validatePayload_def demo_payload_def)

lemma demo_norm_rows:
  "n_rows (norm_loop (union_tags (the (p_tag_map demo_payload))) (the (p_characters demo_payload)))
     = [doc1\<lparr>tag_count := 0, sigma_idf := 0\<rparr>, doc2\<lparr>tag_count := 0, sigma_idf := 0\<rparr>,
        doc3\<lparr>tag_count := 0, sigma_idf := 0\<rparr>]"
  by (simp add: demo_payload_def doc1_def doc2_def doc3_def norm_simps)

lemma num_or_0: "num_or m 0 t = (case m t of None \<Rightarrow> 0 | Some v \<Rightarrow> v)"
  by (simp add: num_or_def split: option.splits)

lemma demo_built:
  assumes "buildStore demo_payload = Inr s"
  shows "s_rows s = [doc1, doc2, doc3]"
    and "s_idf s ''a'' = Some (idf_weight 3 2)"
    and "s_idf s ''b'' = Some (idf_weight 3 3)"
    and "s_idf s ''c'' = Some (idf_weight 3 2)"
proof -
  have b: "build_with union_tags demo_payload = Inr s"
    using assms by (simp add: buildStore_def)
  from build_with_Inr [OF b] demo_valid
  have rows: "s_rows s = map (set_rarity (s_idf s))
      [doc1\<lparr>tag_count := 0, sigma_idf := 0\<rparr>, doc2\<lparr>tag_count := 0, sigma_idf := 0\<rparr>,
       doc3\<lparr>tag_count := 0, sigma_idf := 0\<rparr>]"
    by (auto simp add: demo_norm_rows)
  have len: "length (s_rows s) = 3"
    by (simp add: rows)
  have cnt: "df_count (s_rows s) ''a'' = 2" "df_count (s_rows s) ''b'' = 3"
    "df_count (s_rows s) ''c'' = 2"
    by (simp_all add: rows df_count_def set_rarity_def doc1_def doc2_def doc3_def)
  show a: "s_idf s ''a'' = Some (idf_weight 3 2)"
    using build_idf [OF b, of "''a''"] by (simp add: len cnt)
  show b': "s_idf s ''b'' = Some (idf_weight 3 3)"
    using build_idf [OF b, of "''b''"] by (simp add: len cnt)
  show c: "s_idf s ''c'' = Some (idf_weight 3 2)"
    using build_idf [OF b, of "''c''"] by (simp add: len cnt)
  show "s_rows s = [doc1, doc2, doc3]"
    by (simp add: rows set_rarity_def doc1_def doc2_def doc3_def num_or_0 a b' c)
qed

lemma demo_builds: "buildStore demo_payload = Inr (projr (buildStore demo_payload))"
proof -
  obtain s where "buildStore demo_payload = Inr s"
    using build_with_valid [OF demo_valid, of union_tags] by (auto simp add: buildStore_def)
  then show ?thesis by simp
qed

theorem C3_idf_formula_monotone_positive_witness:
  "buildStore demo_payload = Inr (projr (buildStore demo_payload))
   \<and> df_count (s_rows (projr (buildStore demo_payload))) ''a'' \<noteq> 0
   \<and> s_idf (projr (buildStore demo_payload)) ''a''
       = Some (idf_weight (length (s_rows (projr (buildStore demo_payload))))
                 (df_count (s_rows (projr (buildStore demo_payload))) ''a''))
   \<and> (2::nat) < 3 \<and> idf_weight 3 3 < idf_weight 3 2"
proof -
  have h: "df_count (s_rows (projr (buildStore demo_payload))) ''a'' \<noteq> 0"
    by (simp add: demo_built(1) [OF demo_builds] df_count_def doc1_def)
  have k: "(2::nat) < 3" by simp
  show ?thesis
    using h k demo_builds
      C3_idf_formula_monotone_positive [of Map.empty 3 "''a''" 0 demo_payload
        "projr (buildStore demo_payload)" 2 3]
    by blast
qed

section \<open>Properties of normalization\<close>

lemma to_lower_cases: "to_lower c = c \<or> to_lower c \<in> set lower_chars"
proof (cases "map_of (zip upper_chars lower_chars) c")
  case None
  then show ?thesis by (simp add: to_lower_def)
next
  case (Some d)
  then have "(c, d) \<in> set (zip upper_chars lower_chars)"
    by (rule map_of_SomeD)
  then have "d \<in> set lower_chars"
    by (rule set_zip_rightD)
  with Some show ?thesis by (simp add: to_lower_def)
qed

lemma to_lower_changes: "to_lower c \<noteq> c \<Longrightarrow> c \<in> set upper_chars"
proof -
  assume a: "to_lower c \<noteq> c"
  then obtain d where "map_of (zip upper_chars lower_chars) c = Some d"
    by (cases "map_of (zip upper_chars lower_chars) c") (auto simp add: to_lower_def)
  then have "(c, d) \<in> set (zip upper_chars lower_chars)"
    by (rule map_of_SomeD)
  then show ?thesis
    by (rule set_zip_leftD)
qed

lemma lower_not_space: "c \<in> set lower_chars \<Longrightarrow> \<not> is_space c"
  by (auto simp add: lower_chars_def is_space_def)

lemma upper_not_space: "c \<in> set upper_chars \<Longrightarrow> \<not> is_space c"
  by (auto simp add: upper_chars_def is_space_def)

lemma lower_not_upper: "c \<in> set lower_chars \<Longrightarrow> c \<notin> set upper_chars"
  by (auto simp add: lower_chars_def upper_chars_def)

lemma lower_fixed: "c \<in> set lower_chars \<Longrightarrow> to_lower c = c"
  using to_lower_changes [of c] lower_not_upper [of c] by blast

lemma is_space_to_lower [simp]: "is_space (to_lower c) = is_space c"
proof (cases "to_lower c = c")
  case True
  then show ?thesis by simp
next
  case False
  then have "c \<in> set upper_chars" by (rule to_lower_changes)
  then have "\<not> is_space c" by (rule upper_not_space)
  moreover from False to_lower_cases [of c] have "to_lower c \<in> set lower_chars" by blast
  then have "\<not> is_space (to_lower c)" by (rule lower_not_space)
  ultimately show ?thesis by simp
qed

lemma to_lower_idem [simp]: "to_lower (to_lower c) = to_lower c"
  using to_lower_cases [of c] lower_fixed [of "to_lower c"] by auto

lemma toLowerCase_idem [simp]: "toLowerCase (toLowerCase s) = toLowerCase s"
  by (simp add: toLowerCase_def)

lemma dropWhile_space_lower:
  "dropWhile is_space (map to_lower s) = map to_lower (dropWhile is_space s)"
  by (induction s) simp_all

lemma trim_lower: "trim (toLowerCase s) = toLowerCase (trim s)"
  by (simp add: trim_def toLowerCase_def rev_map dropWhile_space_lower)

text \<open>A string is trimmed when it neither starts nor ends with white space.\<close>

lemma dropWhile_id: "s = [] \<or> \<not> P (hd s) \<Longrightarrow> dropWhile P s = s"
  by (cases s) auto

lemma trim_fixed:
  assumes "s = [] \<or> (\<not> is_space (hd s) \<and> \<not> is_space (last s))"
  shows "trim s = s"
proof (cases "s = []")
  case True
  then show ?thesis by (simp add: trim_def)
next
  case False
  with assms have h: "\<not> is_space (hd s)" and l: "\<not> is_space (last s)"
    by simp_all
  have "dropWhile is_space s = s"
    using h by (simp add: dropWhile_id)
  moreover have "dropWhile is_space (rev s) = rev s"
    using False l by (simp add: dropWhile_id hd_rev)
  ultimately show ?thesis
    by (simp add: trim_def)
qed

lemma trim_trimmed:
  "trim s = [] \<or> (\<not> is_space (hd (trim s)) \<and> \<not> is_space (last (trim s)))"
proof (cases "trim s = []")
  case True
  then show ?thesis by simp
next
  case False
  define u where "u = dropWhile is_space s"
  define v where "v = dropWhile is_space (rev u)"
  define w where "w = rev (takeWhile is_space (rev u))"
  have t: "trim s = rev v"
    by (simp add: trim_def u_def v_def)
  with False have vne: "v \<noteq> []" by simp
  then have hv: "\<not> is_space (hd v)"
    unfolding v_def by (rule hd_dropWhile)
  have "rev (rev u) = rev (takeWhile is_space (rev u) @ v)"
    by (simp only: v_def takeWhile_dropWhile_id)
  then have u: "u = rev v @ w"
    by (simp add: w_def)
  have une: "u \<noteq> []"
    using vne by (simp add: u)
  have hu: "hd u = hd (rev v)"
    using vne by (simp add: u)
  from une have "\<not> is_space (hd u)"
    unfolding u_def by (rule hd_dropWhile)
  with hu hv vne show ?thesis
    by (simp add: t last_rev)
qed

lemma trim_idem [simp]: "trim (trim s) = trim s"
  using trim_trimmed [of s] by (rule trim_fixed)

lemma normalizeTag_idem: "normalizeTag (normalizeTag s) = normalizeTag s"
  by (simp add: normalizeTag_def trim_lower)

lemma set_add_cap_Some:
  assumes "set_add_cap out t = Some out'"
  shows "set out' = insert t (set out)"
    and "distinct out \<Longrightarrow> distinct out'"
    and "length out \<le> max_set_size \<Longrightarrow> length out' \<le> max_set_size"
  using assms by (auto simp add: set_add_cap_def split: if_splits)

lemma js_set_cap_set:
  "js_set_cap acc xs = Some ys \<Longrightarrow> set ys = set acc \<union> set xs"
proof (induction xs arbitrary: acc)
  case Nil
  then show ?case by simp
next
  case (Cons x xs)
  then obtain acc' where a: "set_add_cap acc x = Some acc'" "js_set_cap acc' xs = Some ys"
    by (auto split: option.splits)
  show ?case
    using Cons.IH [OF a(2)] set_add_cap_Some(1) [OF a(1)] by auto
qed

lemma js_set_cap_distinct:
  "js_set_cap acc xs = Some ys \<Longrightarrow> distinct acc \<Longrightarrow> distinct ys"
proof (induction xs arbitrary: acc)
  case Nil
  then show ?case by simp
next
  case (Cons x xs)
  then obtain acc' where a: "set_add_cap acc x = Some acc'" "js_set_cap acc' xs = Some ys"
    by (auto split: option.splits)
  show ?case
    using Cons.IH [OF a(2)] set_add_cap_Some(2) [OF a(1)] Cons.prems(2) by auto
qed

lemma js_set_cap_length:
  "js_set_cap acc xs = Some ys \<Longrightarrow> length acc \<le> max_set_size
     \<Longrightarrow> length ys \<le> max_set_size"
proof (induction xs arbitrary: acc)
  case Nil
  then show ?case by simp
next
  case (Cons x xs)
  then obtain acc' where a: "set_add_cap acc x = Some acc'" "js_set_cap acc' xs = Some ys"
    by (auto split: option.splits)
  show ?case
    using Cons.IH [OF a(2)] set_add_cap_Some(3) [OF a(1)] Cons.prems(2) by auto
qed

lemma lower_loop_set:
  assumes "lower_loop out vs = Some ts" "t \<in> set ts"
  shows "t \<in> set out \<or> (t \<noteq> [] \<and> (\<exists>s. t = normalizeTag s))"
  using assms
proof (induction vs arbitrary: out)
  case Nil
  then show ?case by simp
next
  case (Cons v vs)
  show ?case
  proof (cases "string_of v")
    case None
    with Cons.prems have "lower_loop out vs = Some ts" by simp
    from Cons.IH [OF this Cons.prems(2)] show ?thesis .
  next
    case (Some s)
    show ?thesis
    proof (cases "toLowerCase (trim s) = []")
      case True
      with Some Cons.prems have "lower_loop out vs = Some ts" by simp
      from Cons.IH [OF this Cons.prems(2)] show ?thesis .
    next
      case False
      with Some Cons.prems obtain out' where
        a: "set_add_cap out (toLowerCase (trim s)) = Some out'" "lower_loop out' vs = Some ts"
        by (auto simp add: Let_def split: option.splits)
      from Cons.IH [OF a(2) Cons.prems(2)]
      have "t \<in> set out' \<or> (t \<noteq> [] \<and> (\<exists>s. t = normalizeTag s))" .
      moreover have "set out' = insert (normalizeTag s) (set out)"
        using set_add_cap_Some(1) [OF a(1)] by (simp add: normalizeTag_def)
      moreover have "normalizeTag s \<noteq> []"
        using False by (simp add: normalizeTag_def)
      ultimately show ?thesis by auto
    qed
  qed
qed

lemma normalizeTagsLower_set:
  assumes "normalizeTagsLower arr = Some ts" "t \<in> set ts"
  shows "t \<noteq> [] \<and> normalizeTag t = t"
proof (cases arr)
  case None
  with assms show ?thesis by (simp add: normalizeTagsLower_def)
next
  case (Some vs)
  with assms have "lower_loop [] vs = Some ts"
    by (simp add: normalizeTagsLower_def)
  from lower_loop_set [OF this assms(2)] obtain s where "t \<noteq> []" "t = normalizeTag s"
    by auto
  then show ?thesis
    using normalizeTag_idem [of s] by simp
qed

text \<open>
  The tags of a row of \<open>unnamed/part_001\<close>: no repetition, no empty string, every tag
  its own normal form, and at most as many as a set holds.
\<close>

lemma union_tags_ok:
  assumes "union_tags tm c = Some ts"
  shows "distinct ts \<and> length ts \<le> max_set_size
     \<and> (\<forall>t\<in>set ts. t \<noteq> [] \<and> normalizeTag t = t)"
proof -
  from assms obtain selfTags mapTags where
    a: "normalizeTagsLower (c_tags c) = Some selfTags"
       "normalizeTagsLower (Some (case tm (avatarKey c) of None \<Rightarrow> [] | Some arr \<Rightarrow> arr))
          = Some mapTags"
       "js_set_cap [] (selfTags @ mapTags) = Some ts"
    by (auto simp add: union_tags_def Let_def split: option.splits)
  have "set ts = set selfTags \<union> set mapTags"
    using js_set_cap_set [OF a(3)] by simp
  then have "\<forall>t\<in>set ts. t \<noteq> [] \<and> normalizeTag t = t"
    using normalizeTagsLower_set [OF a(1)] normalizeTagsLower_set [OF a(2)] by blast
  moreover have "distinct ts"
    using js_set_cap_distinct [OF a(3)] by simp
  moreover have "length ts \<le> max_set_size"
    using js_set_cap_length [OF a(3)] by simp
  ultimately show ?thesis by blast
qed

subsection \<open>The normalization loop\<close>

lemma norm_step_inv:
  assumes "n_byId st = map row_id (n_rows st) \<and> distinct (map row_id (n_rows st))
     \<and> (\<forall>r\<in>set (n_rows st). \<exists>c. f c = Some (row_tags r))"
  shows "n_byId (norm_step f st e) = map row_id (n_rows (norm_step f st e))
     \<and> distinct (map row_id (n_rows (norm_step f st e)))
     \<and> (\<forall>r\<in>set (n_rows (norm_step f st e)). \<exists>c. f c = Some (row_tags r))"
proof (cases e)
  case None
  with assms show ?thesis by (simp add: norm_step_def)
next
  case (Some c)
  show ?thesis
  proof (cases "deriveId c \<in> set (n_byId st)")
    case True
    with Some assms show ?thesis by (simp add: norm_step_def)
  next
    case False
    show ?thesis
    proof (cases "f c")
      case None
      with False Some assms show ?thesis by (simp add: norm_step_def Let_def)
    next
      case (Some ts)
      then have "\<exists>c'. f c' = Some ts" by blast
      with False Some \<open>e = Some c\<close> assms show ?thesis by (simp add: norm_step_def Let_def)
    qed
  qed
qed

lemma norm_foldl_inv:
  assumes "n_byId st = map row_id (n_rows st) \<and> distinct (map row_id (n_rows st))
     \<and> (\<forall>r\<in>set (n_rows st). \<exists>c. f c = Some (row_tags r))"
  shows "distinct (map row_id (n_rows (foldl (norm_step f) st es)))
     \<and> (\<forall>r\<in>set (n_rows (foldl (norm_step f) st es)). \<exists>c. f c = Some (row_tags r))"
  using assms
proof (induction es arbitrary: st)
  case Nil
  then show ?case by simp
next
  case (Cons e es)
  have "distinct (map row_id (n_rows (foldl (norm_step f) (norm_step f st e) es)))
     \<and> (\<forall>r\<in>set (n_rows (foldl (norm_step f) (norm_step f st e) es)).
          \<exists>c. f c = Some (row_tags r))"
    using norm_step_inv [OF Cons.prems, of e] by (rule Cons.IH)
  then show ?case by simp
qed

lemma norm_loop_inv:
  "distinct (map row_id (n_rows (norm_loop f es)))
   \<and> (\<forall>r\<in>set (n_rows (norm_loop f es)). \<exists>c. f c = Some (row_tags r))"
  unfolding norm_loop_def by (rule norm_foldl_inv) simp

lemma build_with_rows:
  assumes "build_with tags_of p = Inr s"
  shows "distinct (map row_id (s_rows s))"
    and "r \<in> set (s_rows s) \<Longrightarrow> \<exists>tm c. tags_of tm c = Some (row_tags r)"
    and "r \<in> set (s_rows s) \<Longrightarrow> tag_count r = length (row_tags r)"
    and "r \<in> set (s_rows s) \<Longrightarrow>
           sigma_idf r = foldl (\<lambda>sum t. sum + num_or (s_idf s) 0 t) 0 (row_tags r)"
proof -
  from build_with_Inr [OF assms] obtain chars tm where
    s: "s_rows s = map (set_rarity (s_idf s)) (n_rows (norm_loop (tags_of tm) chars))"
    by blast
  have ids: "map row_id (s_rows s) = map row_id (n_rows (norm_loop (tags_of tm) chars))"
    by (simp add: s set_rarity_def)
  show "distinct (map row_id (s_rows s))"
    using norm_loop_inv [of "tags_of tm" chars] by (simp add: ids)
  show "\<exists>tm c. tags_of tm c = Some (row_tags r)" if "r \<in> set (s_rows s)"
  proof -
    from that obtain r0 where r0: "r0 \<in> set (n_rows (norm_loop (tags_of tm) chars))"
      "r = set_rarity (s_idf s) r0"
      by (auto simp add: s)
    from r0(1) norm_loop_inv [of "tags_of tm" chars] obtain c
      where "tags_of tm c = Some (row_tags r0)"
      by blast
    then have "tags_of tm c = Some (row_tags r)"
      by (simp add: r0(2) set_rarity_def)
    then show ?thesis by blast
  qed
  show "tag_count r = length (row_tags r)" if "r \<in> set (s_rows s)"
    using that by (auto simp add: s set_rarity_def)
  show "sigma_idf r = foldl (\<lambda>sum t. sum + num_or (s_idf s) 0 t) 0 (row_tags r)"
    if "r \<in> set (s_rows s)"
    using that by (auto simp add: s set_rarity_def)
qed

text \<open>
  After \<open>buildStore\<close> of \<open>unnamed/part_001\<close>, every row's tag list is free of
  repetitions and of empty strings, every tag is its own normal form (trimmed and
  lower-cased), no row has more tags than a set holds, and no two rows have the same id.
\<close>

lemma buildStore_invariant:
  assumes "buildStore p = Inr s"
  shows "distinct (map row_id (s_rows s))
     \<and> (\<forall>r\<in>set (s_rows s). distinct (row_tags r) \<and> length (row_tags r) \<le> max_set_size
           \<and> (\<forall>t\<in>set (row_tags r). t \<noteq> [] \<and> normalizeTag t = t))"
proof -
  have b: "build_with union_tags p = Inr s"
    using assms by (simp add: buildStore_def)
  have "distinct (row_tags r) \<and> length (row_tags r) \<le> max_set_size
      \<and> (\<forall>t\<in>set (row_tags r). t \<noteq> [] \<and> normalizeTag t = t)"
    if "r \<in> set (s_rows s)" for r
  proof -
    from build_with_rows(2) [OF b that] obtain tm c where "union_tags tm c = Some (row_tags r)"
      by blast
    then show ?thesis
      by (rule union_tags_ok)
  qed
  then show ?thesis
    using build_with_rows(1) [OF b] by blast
qed

lemma demo_invariant:
  "distinct (map row_id [doc1, doc2, doc3])
   \<and> (\<forall>r\<in>set [doc1, doc2, doc3]. distinct (row_tags r) \<and> length (row_tags r) \<le> max_set_size
         \<and> (\<forall>t\<in>set (row_tags r). t \<noteq> [] \<and> normalizeTag t = t))"
  using buildStore_invariant [OF demo_builds] unfolding demo_built(1) [OF demo_builds] .

lemma dup_valid:
  "validatePayload dup_payload = Inr (the (p_characters dup_payload), the (p_tag_map dup_payload))"
  by (simp add: validatePayload_def dup_payload_def)

lemma dup_builds:
  "buildStore_cards_backend dup_payload = Inr (projr (buildStore_cards_backend dup_payload))"
proof -
  obtain s where "buildStore_cards_backend dup_payload = Inr s"
    using build_with_valid [OF dup_valid, of tagList]
    by (auto simp add: buildStore_cards_backend_def)
  then show ?thesis by simp
qed

lemma dup_norm_rows:
  "map row_tags (n_rows (norm_loop (tagList (the (p_tag_map dup_payload)))
                           (the (p_characters dup_payload)))) = [''a'', ''a''] # []"
  by (simp add: dup_payload_def norm_loop_def norm_step_def deriveId_def tagList_def
      normalizeTag_def trim_def is_space_def toLowerCase_def to_lower_def upper_chars_def
      lower_chars_def Let_def)

text \<open>
  C9. In \<open>cards-backend.js\<close> the tag list of a row is
  \<open>c.tags.map(normalizeTag).filter(Boolean)\<close>, with no removal of repetitions: the
  character with the raw tags \<open>a\<close> and \<open>A\<close> gets the tag list \<open>a, a\<close>, which holds
  the tag \<open>a\<close> twice. (\<open>unnamed/part_001\<close> builds the list through
  \<open>normalizeTagsLower\<close> and a \<open>Set\<close>, and there the invariant holds:
  \<open>buildStore_invariant\<close>.)
\<close>

theorem C9_cards_backend_keeps_duplicate_tags:
  "buildStore_cards_backend dup_payload = Inr (projr (buildStore_cards_backend dup_payload))
   \<and> map row_tags (s_rows (projr (buildStore_cards_backend dup_payload))) = [''a'', ''a''] # []
   \<and> \<not> list_all distinct (map row_tags (s_rows (projr (buildStore_cards_backend dup_payload))))"
proof -
  define S where "S = projr (buildStore_cards_backend dup_payload)"
  have b: "build_with tagList dup_payload = Inr S"
    using dup_builds by (simp add: buildStore_cards_backend_def S_def)
  from build_with_Inr [OF b] dup_valid
  have "map row_tags (s_rows S)
      = map row_tags (n_rows (norm_loop (tagList (the (p_tag_map dup_payload)))
                                (the (p_characters dup_payload))))"
    by (auto simp add: set_rarity_def comp_def)
  then have rows: "map row_tags (s_rows S) = [''a'', ''a''] # []"
    by (simp only: dup_norm_rows)
  have "\<not> list_all distinct (map row_tags (s_rows S))"
    by (simp add: rows)
  with rows dup_builds show ?thesis
    unfolding S_def by blast
qed

section \<open>Properties of the filter\<close>

lemma build_idf_ge_1:
  assumes "build_with tags_of p = Inr s" "s_idf s t = Some v"
  shows "1 \<le> v"
proof -
  from build_idf [OF assms(1), of t] assms(2)
  have "v = idf_weight (length (s_rows s)) (df_count (s_rows s) t)"
    by (simp split: if_splits)
  then show ?thesis
    using idf_weight_ge_1 [OF df_count_le, of "s_rows s" t] by simp
qed

lemma build_num_or_nonneg:
  assumes "build_with tags_of p = Inr s"
  shows "0 \<le> num_or (s_idf s) 0 t"
proof (cases "s_idf s t")
  case None
  then show ?thesis by (simp add: num_or_def)
next
  case (Some v)
  with build_idf_ge_1 [OF assms Some] show ?thesis by (simp add: num_or_def)
qed

lemma foldl_add_nonneg:
  assumes "\<And>t. 0 \<le> g t" "0 \<le> (a::real)"
  shows "0 \<le> foldl (\<lambda>sum t. sum + g t) a ts"
  using assms(2)
proof (induction ts arbitrary: a)
  case Nil
  then show ?case by simp
next
  case (Cons t ts)
  have "0 \<le> a + g t"
    using Cons.prems assms(1) [of t] by simp
  then show ?case
    using Cons.IH [of "a + g t"] by simp
qed

lemma build_sigma_nonneg:
  assumes "build_with tags_of p = Inr s" "r \<in> set (s_rows s)"
  shows "0 \<le> sigma_idf r"
  using build_with_rows(4) [OF assms] build_num_or_nonneg [OF assms(1)]
  by (simp add: foldl_add_nonneg)

lemma keeps_blank:
  assumes "list_all is_space e" "lo \<le> 0" "0 \<le> sigma_idf r"
  shows "keeps ((default_filter_opts e)\<lparr>tagCountMin := lo\<rparr>) r
     \<longleftrightarrow> real (tag_count r) \<le> 1000000000 \<and> sigma_idf r \<le> 1000000000"
proof -
  have "bool_eval e r"
    using assms(1) by (simp add: bool_eval_def parseBoolExpr_def trim_spaces)
  moreover have "\<not> real (tag_count r) < lo"
    using assms(2) by (simp add: not_less order_trans [of lo 0])
  moreover have "\<not> sigma_idf r < - 1000000000"
    using assms(3) by simp
  ultimately show ?thesis
    by (auto simp add: keeps_def default_filter_opts_def)
qed

lemma filter_blank:
  assumes "build_with tags_of p = Inr s" "list_all is_space e" "lo \<le> 0"
  shows "filter_rows s ((default_filter_opts e)\<lparr>tagCountMin := lo\<rparr>)
     = filter (\<lambda>r. real (tag_count r) \<le> 1000000000 \<and> sigma_idf r \<le> 1000000000) (s_rows s)"
  unfolding filter_rows_def
proof (rule filter_cong [OF refl])
  fix r assume "r \<in> set (s_rows s)"
  then have "0 \<le> sigma_idf r"
    by (rule build_sigma_nonneg [OF assms(1)])
  with assms(2,3) show "keeps ((default_filter_opts e)\<lparr>tagCountMin := lo\<rparr>) r
     \<longleftrightarrow> real (tag_count r) \<le> 1000000000 \<and> sigma_idf r \<le> 1000000000"
    by (rule keeps_blank)
qed

subsection \<open>The default upper bounds\<close>

text \<open>
  \<open>rows\<close> is a JavaScript array, so a corpus has fewer than \<open>2^32\<close> rows; then no
  weight of the table exceeds 33.
\<close>

lemma idf_weight_le_33:
  assumes "N < 2 ^ 32"
  shows "idf_weight N df \<le> 33"
proof -
  have "(real N + 1) / (real df + 1) \<le> real N + 1"
    by (simp add: divide_le_eq)
  also have "real N + 1 \<le> 2 ^ 32"
  proof -
    from assms have "N + 1 \<le> 2 ^ 32" by simp
    then have "real (N + 1) \<le> real ((2::nat) ^ 32)"
      by (rule of_nat_mono)
    then show ?thesis by simp
  qed
  finally have "ln ((real N + 1) / (real df + 1)) \<le> ln ((2::real) ^ 32)"
    by (simp add: ln_mono)
  also have "ln ((2::real) ^ 32) = 32 * ln 2"
    using ln_realpow [of 2 32] by simp
  also have "\<dots> \<le> 32"
    using ln_2_less_1 by simp
  finally show ?thesis
    by (simp add: idf_weight_def)
qed

lemma build_num_or_le:
  assumes "build_with tags_of p = Inr s" "length (s_rows s) < 2 ^ 32"
  shows "num_or (s_idf s) 0 t \<le> 33"
proof (cases "s_idf s t")
  case None
  then show ?thesis by (simp add: num_or_def)
next
  case (Some v)
  from build_idf [OF assms(1), of t] Some
  have "v = idf_weight (length (s_rows s)) (df_count (s_rows s) t)"
    by (simp split: if_splits)
  then have "v \<le> 33"
    using idf_weight_le_33 [OF assms(2)] by simp
  with Some show ?thesis by (simp add: num_or_def)
qed

lemma foldl_add_le:
  assumes "\<And>t. g t \<le> (c::real)"
  shows "foldl (\<lambda>sum t. sum + g t) a ts \<le> a + c * real (length ts)"
proof (induction ts arbitrary: a)
  case Nil
  show ?case by simp
next
  case (Cons t ts)
  have "foldl (\<lambda>sum t. sum + g t) (a + g t) ts \<le> (a + g t) + c * real (length ts)"
    by (rule Cons.IH)
  also have "\<dots> \<le> a + c * real (length (t # ts))"
    using assms [of t] by (simp add: algebra_simps)
  finally show ?case by simp
qed

lemma build_sigma_le:
  assumes "build_with tags_of p = Inr s" "r \<in> set (s_rows s)" "length (s_rows s) < 2 ^ 32"
  shows "sigma_idf r \<le> 33 * real (length (row_tags r))"
  using build_with_rows(4) [OF assms(1,2)] build_num_or_le [OF assms(1,3)]
    foldl_add_le [of "num_or (s_idf s) 0" 33 0 "row_tags r"]
  by simp

text \<open>
  A row with at most \<open>2^24\<close> tags, in a corpus of fewer than \<open>2^32\<close> rows, is within
  the defaults \<open>tagCountMax = 1e9\<close> and \<open>rarityMax = 1e9\<close>.
\<close>

lemma build_within_defaults:
  assumes "build_with tags_of p = Inr s" "r \<in> set (s_rows s)" "length (s_rows s) < 2 ^ 32"
    and "length (row_tags r) \<le> max_set_size"
  shows "real (tag_count r) \<le> 1000000000 \<and> sigma_idf r \<le> 1000000000"
proof -
  have l: "real (length (row_tags r)) \<le> 16777216"
    using assms(4) by (simp add: max_set_size_def)
  have "tag_count r = length (row_tags r)"
    by (rule build_with_rows(3) [OF assms(1,2)])
  with l have "real (tag_count r) \<le> 1000000000"
    by simp
  moreover have "sigma_idf r \<le> 1000000000"
    using build_sigma_le [OF assms(1,2,3)] l by simp
  ultimately show ?thesis by simp
qed

lemma filter_blank_all:
  assumes "build_with tags_of p = Inr s" "list_all is_space e" "lo \<le> 0"
    and "length (s_rows s) < 2 ^ 32"
    and "\<And>r. r \<in> set (s_rows s) \<Longrightarrow> length (row_tags r) \<le> max_set_size"
  shows "filter_rows s ((default_filter_opts e)\<lparr>tagCountMin := lo\<rparr>) = s_rows s"
proof -
  have "filter (\<lambda>r. real (tag_count r) \<le> 1000000000 \<and> sigma_idf r \<le> 1000000000) (s_rows s)
      = s_rows s"
    using build_within_defaults [OF assms(1) _ assms(4)] assms(5)
    by (simp add: filter_id_conv)
  then show ?thesis
    using filter_blank [OF assms(1,2,3)] by simp
qed

text \<open>
  C7. On a store built by \<open>unnamed/part_001\<close>, \<open>filter\<close> with an empty or
  whitespace-only expression, \<open>tagCountMin\<close> at most 0 and the other three bounds at
  their defaults returns \<open>store.rows\<close> itself: every row, in the order of the store.
  The two default upper bounds are tests of the code (\<open>r.tag_count > tagCountMax\<close>,
  \<open>r.sigma_idf > rarityMax\<close>, both against \<open>1e9\<close>), and they never fire: the tags of
  a row went through a \<open>Set\<close>, which holds at most \<open>2^24\<close> of them, and a weight of
  the table of a corpus of fewer than \<open>2^32\<close> rows, the bound of a JavaScript array,
  is at most 33. \<open>cards-backend.js\<close> builds the tags of a row without a set; there
  the same holds when no row has more than \<open>2^24\<close> tags.
\<close>

theorem C7_filter_identity:
  assumes "buildStore p = Inr s
      \<or> (buildStore_cards_backend p = Inr s
          \<and> list_all (\<lambda>r. length (row_tags r) \<le> max_set_size) (s_rows s))"
    and "list_all is_space e" and "lo \<le> 0" and "length (s_rows s) < 2 ^ 32"
  shows "filter_rows s ((default_filter_opts e)\<lparr>tagCountMin := lo\<rparr>) = s_rows s"
  using assms(1)
proof
  assume b: "buildStore p = Inr s"
  then have bw: "build_with union_tags p = Inr s"
    by (simp add: buildStore_def)
  have "length (row_tags r) \<le> max_set_size" if "r \<in> set (s_rows s)" for r
    using buildStore_invariant [OF b] that by blast
  then show ?thesis
    using filter_blank_all [OF bw assms(2,3,4)] by blast
next
  assume b: "buildStore_cards_backend p = Inr s
      \<and> list_all (\<lambda>r. length (row_tags r) \<le> max_set_size) (s_rows s)"
  then have bw: "build_with tagList p = Inr s"
    by (simp add: buildStore_cards_backend_def)
  have "length (row_tags r) \<le> max_set_size" if "r \<in> set (s_rows s)" for r
    using b that by (simp add: list_all_iff)
  then show ?thesis
    using filter_blank_all [OF bw assms(2,3,4)] by blast
qed

theorem C7_filter_identity_witness:
  "(buildStore demo_payload = Inr (projr (buildStore demo_payload))
      \<or> (buildStore_cards_backend demo_payload = Inr (projr (buildStore demo_payload))
          \<and> list_all (\<lambda>r. length (row_tags r) \<le> max_set_size)
               (s_rows (projr (buildStore demo_payload)))))
   \<and> list_all is_space [CHR '' '', CHR 0x09]
   \<and> (- 1 :: real) \<le> 0
   \<and> length (s_rows (projr (buildStore demo_payload))) < 2 ^ 32
   \<and> filter_rows (projr (buildStore demo_payload))
        ((default_filter_opts [CHR '' '', CHR 0x09])\<lparr>tagCountMin := - 1\<rparr>) = [doc1, doc2, doc3]"
proof -
  have b: "buildStore demo_payload = Inr (projr (buildStore demo_payload))
      \<or> (buildStore_cards_backend demo_payload = Inr (projr (buildStore demo_payload))
          \<and> list_all (\<lambda>r. length (row_tags r) \<le> max_set_size)
               (s_rows (projr (buildStore demo_payload))))"
    using demo_builds by blast
  have e: "list_all is_space [CHR '' '', CHR 0x09]"
    by (simp add: is_space_def)
  have lo: "(- 1 :: real) \<le> 0"
    by simp
  have rows: "s_rows (projr (buildStore demo_payload)) = [doc1, doc2, doc3]"
    by (rule demo_built(1) [OF demo_builds])
  have n: "length (s_rows (projr (buildStore demo_payload))) < 2 ^ 32"
    by (simp add: rows)
  show ?thesis
    using b e lo n rows C7_filter_identity [OF b e lo n]
    by simp
qed

section \<open>Properties of token search\<close>

lemma search_loop_Some:
  "set (case search_loop s (Some c) ts of None \<Rightarrow> [] | Some r \<Rightarrow> r)
     = set c \<inter> (\<Inter>t\<in>set ts. set (postings s t))"
proof (induction ts arbitrary: c)
  case Nil
  show ?case by simp
next
  case (Cons t ts)
  define cur where "cur = filter (\<lambda>x. x \<in> set (postings s t)) c"
  have cur: "set cur = set c \<inter> set (postings s t)"
    by (auto simp add: cur_def)
  show ?case
  proof (cases "cur = []")
    case True
    then have "set c \<inter> set (postings s t) = {}"
      using cur by simp
    then have "set c \<inter> (\<Inter>t\<in>set (t # ts). set (postings s t)) = {}"
      by auto
    then show ?thesis
      using True by (simp add: cur_def Let_def)
  next
    case False
    have "set c \<inter> (\<Inter>t\<in>set (t # ts). set (postings s t))
        = set cur \<inter> (\<Inter>t\<in>set ts. set (postings s t))"
      using cur by auto
    then show ?thesis
      using False Cons.IH [of cur] by (simp add: cur_def Let_def)
  qed
qed

lemma search_loop_None:
  "ts \<noteq> [] \<Longrightarrow>
   set (case search_loop s None ts of None \<Rightarrow> [] | Some r \<Rightarrow> r)
     = (\<Inter>t\<in>set ts. set (postings s t))"
proof (cases ts)
  case Nil
  assume "ts \<noteq> []"
  with Nil show ?thesis by simp
next
  case (Cons t ts')
  show ?thesis
  proof (cases "postings s t = []")
    case True
    then have "(\<Inter>t\<in>set (t # ts'). set (postings s t)) = {}"
      by auto
    then show ?thesis
      using True Cons by (simp add: Let_def)
  next
    case False
    then show ?thesis
      using Cons search_loop_Some [of s "postings s t" ts'] by (simp add: Let_def)
  qed
qed

lemma searchTokens_set:
  "set (searchTokens s q)
     = (if tokens_of q = [] then row_id ` set (s_rows s)
        else (\<Inter>t\<in>set (tokens_of q). set (postings s t)))"
  by (simp add: searchTokens_def Let_def search_loop_None)

lemma runs_alnum:
  "t \<in> set (runs cur cs) \<Longrightarrow> list_all is_alnum cur \<Longrightarrow> t \<noteq> [] \<and> list_all is_alnum t"
proof (induction cs arbitrary: cur)
  case Nil
  then show ?case by (auto split: if_splits)
next
  case (Cons c cs)
  show ?case
  proof (cases "is_alnum c")
    case True
    with Cons.prems have "t \<in> set (runs (cur @ [c]) cs)" "list_all is_alnum (cur @ [c])"
      by simp_all
    then show ?thesis by (rule Cons.IH)
  next
    case False
    with Cons.prems have "(cur \<noteq> [] \<and> t = cur) \<or> t \<in> set (runs [] cs)"
      by (auto split: if_splits)
    then show ?thesis
    proof
      assume "cur \<noteq> [] \<and> t = cur"
      with Cons.prems(2) show ?thesis by simp
    next
      assume "t \<in> set (runs [] cs)"
      then show ?thesis by (rule Cons.IH) simp
    qed
  qed
qed

lemma tokens_of_alnum: "t \<in> set (tokens_of q) \<Longrightarrow> t \<noteq> [] \<and> list_all is_alnum t"
  using runs_alnum [of t "[]" "toLowerCase q"] by (simp add: tokens_of_def)

lemma alnum_not_space: "is_alnum c \<Longrightarrow> \<not> is_space c"
  by (auto simp add: is_alnum_def is_space_def)

lemma trim_alnum:
  assumes "list_all is_alnum t"
  shows "trim t = t"
proof -
  have a: "dropWhile is_space xs = xs" if "list_all is_alnum xs" for xs
    using that by (cases xs) (simp_all add: alnum_not_space)
  have "list_all is_alnum (rev t)"
    using assms by (simp add: list_all_iff)
  then show ?thesis
    using assms by (simp add: trim_def a)
qed

text \<open>The ids that a token index holds for a token.\<close>

lemma addTok_set:
  assumes "tok \<noteq> []" "list_all is_alnum tok"
  shows "(case addTok rid m tok t of None \<Rightarrow> {} | Some ids \<Rightarrow> set ids)
     = (if t = tok then insert rid (case m t of None \<Rightarrow> {} | Some ids \<Rightarrow> set ids)
        else (case m t of None \<Rightarrow> {} | Some ids \<Rightarrow> set ids))"
  using assms by (auto simp add: addTok_def trim_alnum set_add_def Let_def split: option.splits)

lemma foldl_addTok_set:
  assumes "\<And>tok. tok \<in> set toks \<Longrightarrow> tok \<noteq> [] \<and> list_all is_alnum tok"
  shows "(case foldl (addTok rid) m toks t of None \<Rightarrow> {} | Some ids \<Rightarrow> set ids)
     = (if t \<in> set toks then insert rid (case m t of None \<Rightarrow> {} | Some ids \<Rightarrow> set ids)
        else (case m t of None \<Rightarrow> {} | Some ids \<Rightarrow> set ids))"
  using assms
proof (induction toks arbitrary: m)
  case Nil
  show ?case by simp
next
  case (Cons tok toks)
  have g: "tok \<noteq> []" "list_all is_alnum tok"
    using Cons.prems [of tok] by simp_all
  have "(case foldl (addTok rid) (addTok rid m tok) toks t of None \<Rightarrow> {} | Some ids \<Rightarrow> set ids)
     = (if t \<in> set toks
        then insert rid (case addTok rid m tok t of None \<Rightarrow> {} | Some ids \<Rightarrow> set ids)
        else (case addTok rid m tok t of None \<Rightarrow> {} | Some ids \<Rightarrow> set ids))"
    using Cons.prems by (intro Cons.IH) simp
  then show ?case
    by (simp add: addTok_set [OF g]) 
qed

lemma tok_row_set:
  "(case tok_row m r t of None \<Rightarrow> {} | Some ids \<Rightarrow> set ids)
     = (if t \<in> set (tokens_of (row_name r)) \<union> set (tokens_of (row_creator r))
        then insert (row_id r) (case m t of None \<Rightarrow> {} | Some ids \<Rightarrow> set ids)
        else (case m t of None \<Rightarrow> {} | Some ids \<Rightarrow> set ids))"
proof -
  have g: "tok \<noteq> [] \<and> list_all is_alnum tok"
    if "tok \<in> set (js_set (tokens_of (row_name r) @ tokens_of (row_creator r)))" for tok
    using that tokens_of_alnum [of tok] by auto
  show ?thesis
    unfolding tok_row_def
    using foldl_addTok_set [of "js_set (tokens_of (row_name r) @ tokens_of (row_creator r))"
        "row_id r" m t, OF g]
    by simp
qed

lemma foldl_tok_row_set:
  "(case foldl tok_row m rs t of None \<Rightarrow> {} | Some ids \<Rightarrow> set ids)
     = (case m t of None \<Rightarrow> {} | Some ids \<Rightarrow> set ids)
       \<union> row_id ` {r \<in> set rs. t \<in> set (tokens_of (row_name r)) \<union> set (tokens_of (row_creator r))}"
proof (induction rs arbitrary: m)
  case Nil
  show ?case by simp
next
  case (Cons r rs)
  show ?case
    by (simp add: Cons.IH tok_row_set) blast
qed

lemma build_tokenMap:
  assumes "build_with tags_of p = Inr s"
  shows "(case s_tokenMap s t of None \<Rightarrow> {} | Some ids \<Rightarrow> set ids)
     = row_id ` {r \<in> set (s_rows s).
          t \<in> set (tokens_of (row_name r)) \<union> set (tokens_of (row_creator r))}"
proof -
  from build_with_Inr [OF assms] have "s_tokenMap s = foldl tok_row Map.empty (s_rows s)"
    by blast
  then show ?thesis
    by (simp add: foldl_tok_row_set)
qed

lemma set_postings:
  "set (postings s t) = (case s_tokenMap s t of None \<Rightarrow> {} | Some ids \<Rightarrow> set ids)"
  by (simp add: postings_def split: option.splits)

lemma build_search:
  assumes "build_with tags_of p = Inr s" "tokens_of q \<noteq> []"
  shows "set (searchTokens s q)
     = row_id ` {r \<in> set (s_rows s).
          set (tokens_of q) \<subseteq> set (tokens_of (row_name r)) \<union> set (tokens_of (row_creator r))}"
proof -
  define B where "B t = {r \<in> set (s_rows s).
      t \<in> set (tokens_of (row_name r)) \<union> set (tokens_of (row_creator r))}" for t
  have inj: "inj_on row_id (set (s_rows s))"
    using build_with_rows(1) [OF assms(1)] by (simp add: distinct_map)
  from assms(2) obtain t0 where t0: "t0 \<in> set (tokens_of q)"
    by (cases "tokens_of q") auto
  have sub: "\<forall>t\<in>set (tokens_of q). B t \<subseteq> set (s_rows s)"
    by (auto simp add: B_def)
  have "set (searchTokens s q)
      = (\<Inter>t\<in>set (tokens_of q). case s_tokenMap s t of None \<Rightarrow> {} | Some ids \<Rightarrow> set ids)"
    using assms(2) by (simp add: searchTokens_set set_postings)
  also have "\<dots> = (\<Inter>t\<in>set (tokens_of q). row_id ` B t)"
    by (simp only: build_tokenMap [OF assms(1)] B_def)
  also have "\<dots> = row_id ` (\<Inter>t\<in>set (tokens_of q). B t)"
    by (rule image_INT [OF inj sub t0, symmetric])
  also have "(\<Inter>t\<in>set (tokens_of q). B t)
      = {r \<in> set (s_rows s).
          set (tokens_of q) \<subseteq> set (tokens_of (row_name r)) \<union> set (tokens_of (row_creator r))}"
    using t0 by (auto simp add: B_def)
  finally show ?thesis .
qed

text \<open>
  C6. A query without tokens returns the ids of all rows. Otherwise the result is the
  intersection, over the tokens of the query, of the sets that \<open>store.tokenMap\<close> holds
  for them, where a token missing from the map has the empty set: a query with such a
  token, and a query with two tokens whose sets are disjoint, return the empty set. On
  a store built by either file, the set held for a token is the set of the ids of the
  rows whose name or creator has the token, so the result of a query with tokens is
  the set of the ids of the rows whose name and creator together have every token of
  the query.
\<close>

theorem C6_search_tokens:
  "searchTokens s [] = js_set (map row_id (s_rows s))
   \<and> (tokens_of q = [] \<longrightarrow> searchTokens s q = js_set (map row_id (s_rows s))
        \<and> set (searchTokens s q) = row_id ` set (s_rows s))
   \<and> (tokens_of q \<noteq> [] \<longrightarrow>
        set (searchTokens s q)
          = (\<Inter>t\<in>set (tokens_of q). case s_tokenMap s t of None \<Rightarrow> {} | Some ids \<Rightarrow> set ids))
   \<and> (t \<in> set (tokens_of q) \<and> s_tokenMap s t = None \<longrightarrow> searchTokens s q = [])
   \<and> (t1 \<in> set (tokens_of q) \<and> t2 \<in> set (tokens_of q)
        \<and> s_tokenMap s t1 = Some ids1 \<and> s_tokenMap s t2 = Some ids2
        \<and> set ids1 \<inter> set ids2 = {} \<longrightarrow> searchTokens s q = [])
   \<and> tokens_of ''zzzznotfound'' = [''zzzznotfound'']
   \<and> ((buildStore p = Inr s \<or> buildStore_cards_backend p = Inr s) \<and> tokens_of q \<noteq> [] \<longrightarrow>
        set (searchTokens s q)
          = row_id ` {r \<in> set (s_rows s).
              set (tokens_of q) \<subseteq> set (tokens_of (row_name r)) \<union> set (tokens_of (row_creator r))})"
proof -
  have e: "searchTokens s [] = js_set (map row_id (s_rows s))"
    by (simp add: searchTokens_def tokens_of_def toLowerCase_def)
  have n: "tokens_of q = [] \<longrightarrow> searchTokens s q = js_set (map row_id (s_rows s))
        \<and> set (searchTokens s q) = row_id ` set (s_rows s)"
    by (simp add: searchTokens_def)
  have i: "set (searchTokens s q)
      = (\<Inter>t\<in>set (tokens_of q). case s_tokenMap s t of None \<Rightarrow> {} | Some ids \<Rightarrow> set ids)"
    if "tokens_of q \<noteq> []"
    using that by (simp add: searchTokens_set set_postings)
  have m: "t \<in> set (tokens_of q) \<and> s_tokenMap s t = None \<longrightarrow> searchTokens s q = []"
  proof
    assume a: "t \<in> set (tokens_of q) \<and> s_tokenMap s t = None"
    then have ne: "tokens_of q \<noteq> []" by auto
    from a have "(\<Inter>t\<in>set (tokens_of q). case s_tokenMap s t of None \<Rightarrow> {} | Some ids \<Rightarrow> set ids)
        = {}"
      by (auto split: option.splits)
    then have "set (searchTokens s q) = {}"
      by (simp only: i [OF ne])
    then show "searchTokens s q = []" by simp
  qed
  have d: "t1 \<in> set (tokens_of q) \<and> t2 \<in> set (tokens_of q)
        \<and> s_tokenMap s t1 = Some ids1 \<and> s_tokenMap s t2 = Some ids2
        \<and> set ids1 \<inter> set ids2 = {} \<longrightarrow> searchTokens s q = []"
  proof
    assume a: "t1 \<in> set (tokens_of q) \<and> t2 \<in> set (tokens_of q)
        \<and> s_tokenMap s t1 = Some ids1 \<and> s_tokenMap s t2 = Some ids2
        \<and> set ids1 \<inter> set ids2 = {}"
    then have ne: "tokens_of q \<noteq> []" by auto
    have "x \<notin> (\<Inter>t\<in>set (tokens_of q). case s_tokenMap s t of None \<Rightarrow> {} | Some ids \<Rightarrow> set ids)"
      for x
    proof
      assume x: "x \<in> (\<Inter>t\<in>set (tokens_of q).
          case s_tokenMap s t of None \<Rightarrow> {} | Some ids \<Rightarrow> set ids)"
      from x a have "x \<in> (case s_tokenMap s t1 of None \<Rightarrow> {} | Some ids \<Rightarrow> set ids)"
        by blast
      moreover from x a have "x \<in> (case s_tokenMap s t2 of None \<Rightarrow> {} | Some ids \<Rightarrow> set ids)"
        by blast
      ultimately show False
        using a by auto
    qed
    then have "set (searchTokens s q) = {}"
      unfolding i [OF ne] by blast
    then show "searchTokens s q = []" by simp
  qed
  have z: "tokens_of ''zzzznotfound'' = [''zzzznotfound'']"
    by (simp add: tokens_of_def toLowerCase_def to_lower_def upper_chars_def lower_chars_def
        is_alnum_def)
  have b: "set (searchTokens s q)
      = row_id ` {r \<in> set (s_rows s).
          set (tokens_of q) \<subseteq> set (tokens_of (row_name r)) \<union> set (tokens_of (row_creator r))}"
    if "buildStore p = Inr s \<or> buildStore_cards_backend p = Inr s" "tokens_of q \<noteq> []"
  proof -
    from that(1) obtain tags_of where "build_with tags_of p = Inr s"
      by (auto simp add: buildStore_def buildStore_cards_backend_def)
    then show ?thesis
      using that(2) by (rule build_search)
  qed
  show ?thesis
    using e n i m d z b by blast
qed

lemma demo_tokens:
  "tokens_of ''Doc1, BOB!'' = [''doc1'', ''bob'']"
  "tokens_of '' ?! '' = []"
  "tokens_of ''Ann'' = [''ann'']"
  "tokens_of ''ann DOC3'' = [''ann'', ''doc3'']"
  by (simp_all add: tokens_of_def toLowerCase_def to_lower_def upper_chars_def lower_chars_def
      is_alnum_def)

lemma demo_search:
  "searchTokens demo_store ''Ann'' = [''1'', ''3'']"
  "searchTokens demo_store ''ann DOC3'' = [''3'']"
  by (simp_all add: searchTokens_def demo_tokens postings_def demo_store_def Let_def)

lemma demo_row_tokens:
  "tokens_of ''Doc1'' = [''doc1'']" "tokens_of ''Doc2'' = [''doc2'']"
  "tokens_of ''Doc3'' = [''doc3'']" "tokens_of ''ann'' = [''ann'']"
  "tokens_of ''bob'' = [''bob'']"
  by (simp_all add: tokens_of_def toLowerCase_def to_lower_def upper_chars_def lower_chars_def
      is_alnum_def)

theorem C6_search_tokens_witness:
  "tokens_of '' ?! '' = []
   \<and> searchTokens demo_store '' ?! '' = [''1'', ''2'', ''3'']
   \<and> tokens_of ''Ann'' \<noteq> []
   \<and> set (searchTokens demo_store ''Ann'') = {''1'', ''3''}
   \<and> searchTokens demo_store ''ann DOC3'' = [''3'']
   \<and> ''zzzznotfound'' \<in> set (tokens_of ''zzzznotfound'')
   \<and> s_tokenMap demo_store ''zzzznotfound'' = None
   \<and> searchTokens demo_store ''zzzznotfound'' = []
   \<and> ''doc1'' \<in> set (tokens_of ''Doc1, BOB!'') \<and> ''bob'' \<in> set (tokens_of ''Doc1, BOB!'')
   \<and> s_tokenMap demo_store ''doc1'' = Some [''1''] \<and> s_tokenMap demo_store ''bob'' = Some [''2'']
   \<and> set [''1''] \<inter> set [''2''] = ({} :: string set)
   \<and> searchTokens demo_store ''Doc1, BOB!'' = []
   \<and> buildStore demo_payload = Inr (projr (buildStore demo_payload))
   \<and> tokens_of ''ann DOC3'' \<noteq> []
   \<and> set (searchTokens (projr (buildStore demo_payload)) ''ann DOC3'') = {''3''}"
proof -
  have z: "''zzzznotfound'' \<in> set (tokens_of ''zzzznotfound'')
      \<and> s_tokenMap demo_store ''zzzznotfound'' = None"
    using C6_search_tokens [of demo_store "[]" "[]" "[]" "[]" "[]" "[]" demo_payload]
    by (simp add: demo_store_def)
  have p: "''doc1'' \<in> set (tokens_of ''Doc1, BOB!'') \<and> ''bob'' \<in> set (tokens_of ''Doc1, BOB!'')
      \<and> s_tokenMap demo_store ''doc1'' = Some [''1''] \<and> s_tokenMap demo_store ''bob'' = Some [''2'']
      \<and> set [''1''] \<inter> set [''2''] = ({} :: string set)"
    by (simp add: demo_tokens demo_store_def)
  have a: "tokens_of ''Ann'' \<noteq> []" "tokens_of ''ann DOC3'' \<noteq> []"
    by (simp_all add: demo_tokens)
  have h: "set (searchTokens demo_store ''Ann'') = {''1'', ''3''}"
    using a C6_search_tokens [of demo_store "''Ann''" "[]" "[]" "[]" "[]" "[]" demo_payload]
    by (simp add: demo_tokens demo_store_def)
  have rows: "s_rows (projr (buildStore demo_payload)) = [doc1, doc2, doc3]"
    by (rule demo_built(1) [OF demo_builds])
  have "set (searchTokens (projr (buildStore demo_payload)) ''ann DOC3'')
      = row_id ` {r \<in> set (s_rows (projr (buildStore demo_payload))).
          set (tokens_of ''ann DOC3'')
            \<subseteq> set (tokens_of (row_name r)) \<union> set (tokens_of (row_creator r))}"
    using a demo_builds
      C6_search_tokens [of "projr (buildStore demo_payload)" "''ann DOC3''" "[]" "[]" "[]"
        "[]" "[]" demo_payload]
    by blast
  then have b: "set (searchTokens (projr (buildStore demo_payload)) ''ann DOC3'') = {''3''}"
    unfolding set_filter [symmetric]
    by (simp add: rows demo_tokens doc1_def doc2_def doc3_def demo_row_tokens)
  have e: "searchTokens demo_store '' ?! '' = [''1'', ''2'', ''3'']"
    using C6_search_tokens [of demo_store "'' ?! ''" "[]" "[]" "[]" "[]" "[]" demo_payload]
    by (simp add: demo_tokens demo_store_def doc1_def doc2_def doc3_def js_set_def set_add_def)
  have nf: "searchTokens demo_store ''zzzznotfound'' = []"
    using z C6_search_tokens [of demo_store "''zzzznotfound''" "''zzzznotfound''" "[]" "[]"
        "[]" "[]" demo_payload]
    by blast
  have dj: "searchTokens demo_store ''Doc1, BOB!'' = []"
    using p C6_search_tokens [of demo_store "''Doc1, BOB!''" "[]" "''doc1''" "''bob''"
        "[''1'']" "[''2'']" demo_payload]
    by blast
  show ?thesis
    using z p a h b e nf dj demo_search(2) demo_tokens(2) demo_builds by blast
qed

end
